theory Spec2Isabelle
  imports Main "HOL-Library.Multiset" "HOL-Library.Sublist" "HOL-Library.Word"
begin

section \<open>Strings\<close>

text \<open>
  Paths, extensions and the text printed by git are modelled as \<^typ>\<open>string\<close>, the
  byte sequence of their UTF-8 encoding. The separator \<open>/\<close>, the dot and the ASCII white
  space are single bytes that never occur inside the encoding of another character, so
  the tests the program makes on them read the same on bytes as on JavaScript's code
  units.
\<close>

definition toLowerCase_char :: "char \<Rightarrow> char" where
  "toLowerCase_char c =
     (case map_of (zip ''ABCDEFGHIJKLMNOPQRSTUVWXYZ'' ''abcdefghijklmnopqrstuvwxyz'') c of
        Some l \<Rightarrow> l
      | None \<Rightarrow> c)"

text \<open>
  \<open>String.prototype.toLowerCase\<close>. The ASCII letters are lowered byte by byte. Two
  characters beyond ASCII have a lower form with an ASCII letter in it: the Kelvin sign
  U+212A (bytes \<open>E2 84 AA\<close>) is lowered to \<open>k\<close>, and U+0130 (bytes \<open>C4 B0\<close>) to \<open>i\<close> followed by
  the combining dot U+0307 (bytes \<open>CC 87\<close>). Every other character beyond ASCII is lowered
  by JavaScript to characters beyond ASCII; the model keeps its bytes, which are all
  \<open>0x80\<close> or more, so a comparison of the result with an ASCII string, as a whole or as a
  prefix, comes out as in JavaScript.
\<close>

fun toLowerCase :: "string \<Rightarrow> string" where
  "toLowerCase [] = []"
| "toLowerCase (c # cs) =
     (if c = CHR 0xE2 \<and> take 2 cs = [CHR 0x84, CHR 0xAA] then
        CHR ''k'' # toLowerCase (drop 2 cs)
      else if c = CHR 0xC4 \<and> take 1 cs = [CHR 0xB0] then
        CHR ''i'' # CHR 0xCC # CHR 0x87 # toLowerCase (drop 1 cs)
      else toLowerCase_char c # toLowerCase cs)"

declare toLowerCase.simps [simp del]

definition startsWith :: "string \<Rightarrow> string \<Rightarrow> bool" where
  "startsWith s p = (take (length p) s = p)"

fun js_includes :: "string \<Rightarrow> string \<Rightarrow> bool" where
  "js_includes [] sub = (sub = [])"
| "js_includes (c # cs) sub = (startsWith (c # cs) sub \<or> js_includes cs sub)"

text \<open>\<open>s.includes(sub)\<close> is \<open>js_includes s sub\<close> (\<open>includes\<close> is a keyword of Isabelle), and the
  field \<open>include\<close> of a decision is \<open>included\<close>.\<close>

text \<open>\<open>s.split(sep)\<close> for a separator of one character: never the empty list.\<close>

fun split :: "char \<Rightarrow> string \<Rightarrow> string list" where
  "split sep [] = [[]]"
| "split sep (c # cs) =
     (if c = sep then [] # split sep cs
      else (case split sep cs of
              [] \<Rightarrow> [[c]]
            | w # ws \<Rightarrow> (c # w) # ws))"

text \<open>\<open>parts.join(glue)\<close>.\<close>

fun join :: "string \<Rightarrow> string list \<Rightarrow> string" where
  "join glue [] = []"
| "join glue [w] = w"
| "join glue (w # v # ws) = w @ glue @ join glue (v # ws)"

section \<open>The platform\<close>

text \<open>
  What the program takes from Node and from the file system is a parameter of the model.
  \<open>extname\<close> is \<open>path.extname\<close>, \<open>relative\<close> is \<open>path.relative\<close>, \<open>sep\<close> is \<open>path.sep\<close>,
  \<open>utf8_decodes bs\<close> says that \<open>new TextDecoder("utf-8", {fatal: true}).decode(bs)\<close>
  does not throw, \<open>localeCompare a b\<close> is \<open>a.localeCompare(b, "en", {sensitivity: "base"})\<close>,
  and \<open>finiteNumber s\<close> is \<open>Number(s)\<close> when \<open>Number.isFinite\<close> holds of it and \<open>None\<close>
  otherwise (timestamps are the integers that git prints for \<open>%ct\<close>).
\<close>

record host =
  extname :: "string \<Rightarrow> string"
  relative :: "string \<Rightarrow> string \<Rightarrow> string"
  sep :: char
  utf8_decodes :: "8 word list \<Rightarrow> bool"
  localeCompare :: "string \<Rightarrow> string \<Rightarrow> int"
  finiteNumber :: "string \<Rightarrow> int option"

text \<open>
  The file system: \<open>stat_size p\<close> is \<open>(await fs.stat(p)).size\<close> and \<open>content p\<close> the bytes
  that opening and reading \<open>p\<close> delivers; \<open>None\<close> where the call throws.
\<close>

record filesystem =
  stat_size :: "string \<Rightarrow> nat option"
  content :: "string \<Rightarrow> 8 word list option"

section \<open>Classifier\<close>

definition FORCE_TEXT_EXTENSIONS :: "string list" where
  "FORCE_TEXT_EXTENSIONS = [''.html'', ''.htm'', ''.xhtml'', ''.shtml'']"

definition BINARY_EXTENSIONS :: "string list" where
  "BINARY_EXTENSIONS =
    [''.png'', ''.jpg'', ''.jpeg'', ''.gif'', ''.webp'', ''.bmp'', ''.ico'', ''.avif'', ''.heic'', ''.heif'',
     ''.pdf'', ''.zip'', ''.tar'', ''.gz'', ''.bz2'', ''.xz'', ''.7z'', ''.rar'',
     ''.mp3'', ''.mp4'', ''.mov'', ''.avi'', ''.mkv'', ''.wav'', ''.ogg'', ''.flac'',
     ''.ttf'', ''.otf'', ''.eot'', ''.woff'', ''.woff2'',
     ''.so'', ''.dll'', ''.dylib'', ''.class'', ''.jar'', ''.exe'', ''.bin'']"

definition LARGE_DATA_EXTENSIONS :: "string list" where
  "LARGE_DATA_EXTENSIONS = [''.csv'', ''.json'', ''.pem'']"

text \<open>
  \<open>looksBinary\<close>: the two extension tables first, then the first 8192 bytes of the file.
  Every exception of the \<open>try\<close> block (open, read, close, decode) gives \<open>true\<close>.
\<close>

definition looksBinary :: "host \<Rightarrow> filesystem \<Rightarrow> string \<Rightarrow> bool" where
  "looksBinary h fs filePath =
     (let ext = toLowerCase (extname h filePath) in
      if ext \<in> set FORCE_TEXT_EXTENSIONS then False
      else if ext \<in> set BINARY_EXTENSIONS then True
      else (case content fs filePath of
              None \<Rightarrow> True
            | Some bytes \<Rightarrow>
                (let buffer = take 8192 bytes in
                 if 0 \<in> set buffer then True
                 else if utf8_decodes h buffer then False
                 else True)))"

datatype reason = Ok | Binary | Too_large | Ignored

record decision =
  included :: bool
  reason :: reason

record info =
  path :: string
  rel :: string
  size :: nat
  decision :: decision

definition decideFile :: "host \<Rightarrow> filesystem \<Rightarrow> string \<Rightarrow> string \<Rightarrow> nat \<Rightarrow> info" where
  "decideFile h fs filePath repoRoot maxBytes =
     (let rel = join ''/'' (split (sep h) (relative h repoRoot filePath));
          ext = toLowerCase (extname h filePath);
          size = (case stat_size fs filePath of Some n \<Rightarrow> n | None \<Rightarrow> 0) in
      if rel = ''.git'' \<or> startsWith rel ''.git/'' \<or> js_includes rel ''/.git/'' then
        \<lparr>path = filePath, rel = rel, size = size, decision = \<lparr>included = False, reason = Ignored\<rparr>\<rparr>
      else if size > maxBytes \<and> ext \<in> set LARGE_DATA_EXTENSIONS then
        \<lparr>path = filePath, rel = rel, size = size, decision = \<lparr>included = False, reason = Too_large\<rparr>\<rparr>
      else if looksBinary h fs filePath then
        \<lparr>path = filePath, rel = rel, size = size, decision = \<lparr>included = True, reason = Binary\<rparr>\<rparr>
      else
        \<lparr>path = filePath, rel = rel, size = size, decision = \<lparr>included = True, reason = Ok\<rparr>\<rparr>)"

section \<open>History age resolver\<close>

text \<open>
  The history query service. \<open>log_all\<close> is the output of
  \<open>git log --format=%ct --name-only --reverse -- .\<close> and \<open>log_follow rel\<close> that of
  \<open>git log --follow --format=%ct -- rel\<close>; \<open>None\<close> where \<open>run\<close> throws. Every call of
  \<open>run\<close> is written to a log of queries, returned beside the result.
\<close>

record git =
  log_all :: "string option"
  log_follow :: "string \<Rightarrow> string option"

datatype query = LogAll | LogFollow string

definition is_space :: "char \<Rightarrow> bool" where
  "is_space c = (c \<in> set [CHR 0x20, CHR 0x09, CHR 0x0A, CHR 0x0B, CHR 0x0C, CHR 0x0D])"

text \<open>
  The ASCII part of JavaScript's white space. \<open>Number\<close> skips white space at both ends
  by itself, and git prints ASCII for \<open>%ct\<close>.
\<close>

definition trim :: "string \<Rightarrow> string" where
  "trim s = rev (dropWhile is_space (rev (dropWhile is_space s)))"

fun split_where :: "(char \<Rightarrow> bool) \<Rightarrow> string \<Rightarrow> string list" where
  "split_where P [] = [[]]"
| "split_where P (c # cs) =
     (if P c then [] # split_where P cs
      else (case split_where P cs of
              [] \<Rightarrow> [[c]]
            | w # ws \<Rightarrow> (c # w) # ws))"

text \<open>\<open>stdout.trim().split(/\s+/).filter(Boolean)\<close>: the runs of characters other than white space.\<close>

definition whitespace_parts :: "string \<Rightarrow> string list" where
  "whitespace_parts stdout = filter (\<lambda>w. w \<noteq> []) (split_where is_space (trim stdout))"

text \<open>\<open>rawLine.replace(/\r$/, "")\<close>.\<close>

definition strip_cr :: "string \<Rightarrow> string" where
  "strip_cr rawLine = (if rawLine \<noteq> [] \<and> last rawLine = CHR 0x0D then butlast rawLine else rawLine)"

text \<open>\<open>Array.from(new Set(relPaths))\<close>: the first occurrence of each path, in order.\<close>

definition uniq :: "'a list \<Rightarrow> 'a list" where
  "uniq xs = rev (remdups (rev xs))"

text \<open>
  The state of the walk over the bulk output: \<open>pending\<close> is a \<open>Set\<close> (a list without
  repetition, in insertion order) and \<open>fileAges\<close> a \<open>Map\<close>.
\<close>

record walk =
  currentTimestamp :: "int option"
  pending :: "string list"
  fileAges :: "string \<rightharpoonup> int"

text \<open>The loop \<open>for (const rawLine of lines)\<close>; the fourth branch is its \<open>break\<close>.\<close>

fun bulk_loop :: "host \<Rightarrow> string list \<Rightarrow> walk \<Rightarrow> walk" where
  "bulk_loop h [] st = st"
| "bulk_loop h (rawLine # lines) st =
     (let line = strip_cr rawLine in
      if line = [] then bulk_loop h lines (st\<lparr>currentTimestamp := None\<rparr>)
      else (case currentTimestamp st of
              None \<Rightarrow>
                (case finiteNumber h (trim line) of
                   Some parsed \<Rightarrow> bulk_loop h lines (st\<lparr>currentTimestamp := Some parsed\<rparr>)
                 | None \<Rightarrow> bulk_loop h lines st)
            | Some ts \<Rightarrow>
                if pending st = [] then st
                else if line \<notin> set (pending st) then bulk_loop h lines st
                else if fileAges st line = None then
                  bulk_loop h lines
                    (st\<lparr>fileAges := (fileAges st)(line \<mapsto> ts),
                       pending := removeAll line (pending st)\<rparr>)
                else bulk_loop h lines st))"

definition bulk_phase :: "host \<Rightarrow> git \<Rightarrow> string list \<Rightarrow> walk" where
  "bulk_phase h g uniquePaths =
     (let st = \<lparr>currentTimestamp = None, pending = uniquePaths, fileAges = Map.empty\<rparr> in
      case log_all g of
        None \<Rightarrow> st
      | Some stdout \<Rightarrow> bulk_loop h (split (CHR 0x0A) stdout) st)"

text \<open>The body of the loop \<open>for (const rel of pending)\<close>, for the path \<open>relPath\<close>.\<close>

definition fallback_step :: "host \<Rightarrow> git \<Rightarrow> (string \<rightharpoonup> int) \<Rightarrow> string \<Rightarrow> (string \<rightharpoonup> int)" where
  "fallback_step h g ages relPath =
     (case log_follow g relPath of
        None \<Rightarrow> ages
      | Some stdout \<Rightarrow>
          (let parts = whitespace_parts stdout in
           if length parts > 0 then
             (case finiteNumber h (last parts) of
                Some timestamp \<Rightarrow> ages(relPath \<mapsto> timestamp)
              | None \<Rightarrow> ages)
           else ages))"

definition gatherOldestCommitTimes ::
  "host \<Rightarrow> git \<Rightarrow> string list \<Rightarrow> (string \<rightharpoonup> int) \<times> query list" where
  "gatherOldestCommitTimes h g relPaths =
     (let uniquePaths = uniq relPaths in
      if uniquePaths = [] then (Map.empty, [])
      else (let st = bulk_phase h g uniquePaths in
            (foldl (fallback_step h g) (fileAges st) (pending st),
             LogAll # map LogFollow (pending st))))"

section \<open>Hierarchical aggregator and orderer\<close>

datatype error = TypeError

text \<open>A number that is an age: a timestamp or \<open>Number.POSITIVE_INFINITY\<close>.\<close>

datatype age = Known int | Infinity

fun age_less :: "age \<Rightarrow> age \<Rightarrow> bool" where
  "age_less (Known a) (Known b) = (a < b)"
| "age_less (Known a) Infinity = True"
| "age_less Infinity b = False"

text \<open>\<open>ageA - ageB\<close>, of which the sort reads the sign (the operands differ where it is used).\<close>

fun age_minus :: "age \<Rightarrow> age \<Rightarrow> int" where
  "age_minus (Known a) (Known b) = a - b"
| "age_minus (Known a) Infinity = - 1"
| "age_minus Infinity (Known b) = 1"
| "age_minus Infinity Infinity = 0"

text \<open>
  A tree node. The children of a directory are a \<open>Map\<close>: the entries in insertion order,
  one entry for a key.
\<close>

datatype node = File info age | Dir "(string \<times> node) list" age

fun node_age :: "node \<Rightarrow> age" where
  "node_age (File i a) = a"
| "node_age (Dir cs a) = a"

text \<open>\<open>Map.prototype.set\<close>: the value of a present key is replaced in place, a new key is appended.\<close>

fun map_set :: "('k \<times> 'v) list \<Rightarrow> 'k \<Rightarrow> 'v \<Rightarrow> ('k \<times> 'v) list" where
  "map_set [] k v = [(k, v)]"
| "map_set ((k', v') # kvs) k v =
     (if k' = k then (k, v) # kvs else (k', v') # map_set kvs k v)"

text \<open>
  \<open>Array.prototype.sort\<close> with a comparator: a stable sort, here by insertion. An element
  stays before the elements that follow it in the array unless the comparator is positive.
\<close>

fun insort_by :: "('a \<Rightarrow> 'a \<Rightarrow> int) \<Rightarrow> 'a \<Rightarrow> 'a list \<Rightarrow> 'a list" where
  "insort_by cmp x [] = [x]"
| "insort_by cmp x (y # ys) = (if cmp x y \<le> 0 then x # y # ys else y # insort_by cmp x ys)"

definition array_sort :: "('a \<Rightarrow> 'a \<Rightarrow> int) \<Rightarrow> 'a list \<Rightarrow> 'a list" where
  "array_sort cmp xs = foldr (insort_by cmp) xs []"

fun computeDirectoryAge :: "node \<Rightarrow> node" where
  "computeDirectoryAge (File i a) = File i a"
| "computeDirectoryAge (Dir cs a) =
     (let cs' = map (\<lambda>(k, c). (k, computeDirectoryAge c)) cs;
          minAge = foldl (\<lambda>m (k, c). if age_less (node_age c) m then node_age c else m) Infinity cs'
      in Dir cs' minAge)"

text \<open>The comparator of \<open>entries.sort\<close> in \<open>collectFilesByAge\<close>.\<close>

definition entry_cmp :: "host \<Rightarrow> string \<Rightarrow> (string \<times> node) \<Rightarrow> (string \<times> node) \<Rightarrow> int" where
  "entry_cmp h parentPath a b =
     (let ageA = node_age (snd a); ageB = node_age (snd b) in
      if ageA \<noteq> ageB then age_minus ageA ageB
      else (let pathA = (if parentPath \<noteq> [] then parentPath @ ''/'' @ fst a else fst a);
                pathB = (if parentPath \<noteq> [] then parentPath @ ''/'' @ fst b else fst b)
            in localeCompare h pathA pathB))"

lemma set_insort_by [simp]: "set (insort_by cmp x xs) = insert x (set xs)"
  by (induction xs) auto

lemma set_array_sort [simp]: "set (array_sort cmp xs) = set xs"
  unfolding array_sort_def by (induction xs) auto

fun collectFilesByAge :: "host \<Rightarrow> node \<Rightarrow> string \<Rightarrow> info list \<Rightarrow> info list" where
  "collectFilesByAge h (File i a) parentPath out = out"
| "collectFilesByAge h (Dir cs a) parentPath out =
     foldl (\<lambda>out (segment, childNode).
              (let currentPath = (if parentPath \<noteq> [] then parentPath @ ''/'' @ segment else segment) in
               case childNode of
                 File i a \<Rightarrow> out @ [i]
               | Dir cs' a' \<Rightarrow> collectFilesByAge h childNode currentPath out))
       out (array_sort (entry_cmp h parentPath) cs)"

text \<open>
  The inner loop of \<open>orderInfosByOldest\<close> over the segments of one path, from \<open>node\<close>:
  \<open>leaf\<close> is the file node set at the last segment. On a file node \<open>node.children\<close> is
  undefined, and calling \<open>get\<close> or \<open>set\<close> on it throws a \<open>TypeError\<close>.
\<close>

fun insert_segments :: "node \<Rightarrow> string list \<Rightarrow> node \<Rightarrow> error + node" where
  "insert_segments node [] leaf = Inr node"
| "insert_segments (File i a) (part # rest) leaf = Inl TypeError"
| "insert_segments (Dir cs a) [part] leaf = Inr (Dir (map_set cs part leaf) a)"
| "insert_segments (Dir cs a) (part # next # rest) leaf =
     (case map_of cs part of
        None \<Rightarrow>
          (case insert_segments (Dir [] Infinity) (next # rest) leaf of
             Inl e \<Rightarrow> Inl e
           | Inr child \<Rightarrow> Inr (Dir (map_set cs part child) a))
      | Some child \<Rightarrow>
          (case insert_segments child (next # rest) leaf of
             Inl e \<Rightarrow> Inl e
           | Inr child' \<Rightarrow> Inr (Dir (map_set cs part child') a)))"

definition file_node :: "(string \<rightharpoonup> int) \<Rightarrow> info \<Rightarrow> node" where
  "file_node ages i = File i (case ages (rel i) of Some t \<Rightarrow> Known t | None \<Rightarrow> Infinity)"

text \<open>The outer loop \<open>for (const info of infos)\<close>.\<close>

fun build_tree :: "(string \<rightharpoonup> int) \<Rightarrow> node \<Rightarrow> info list \<Rightarrow> error + node" where
  "build_tree ages root [] = Inr root"
| "build_tree ages root (i # infos) =
     (case insert_segments root (split CHR ''/'' (rel i)) (file_node ages i) of
        Inl e \<Rightarrow> Inl e
      | Inr root' \<Rightarrow> build_tree ages root' infos)"

definition orderInfosByOldest :: "host \<Rightarrow> info list \<Rightarrow> (string \<rightharpoonup> int) \<Rightarrow> error + info list" where
  "orderInfosByOldest h infos ages =
     (case build_tree ages (Dir [] Infinity) infos of
        Inl e \<Rightarrow> Inl e
      | Inr root \<Rightarrow> Inr (collectFilesByAge h (computeDirectoryAge root) [] []))"

section \<open>The order of the rendered files in \<open>buildHtml\<close>\<close>

text \<open>The index found by the loop over \<open>rendered\<close>; \<open>None\<close> is the source's \<open>-1\<close>.\<close>

fun topLevelReadmeIndex :: "info list \<Rightarrow> nat option" where
  "topLevelReadmeIndex [] = None"
| "topLevelReadmeIndex (x # xs) =
     (if js_includes (rel x) ''/'' then map_option Suc (topLevelReadmeIndex xs)
      else (let lower = toLowerCase (rel x) in
            if lower = ''readme'' \<or> startsWith lower ''readme.'' then Some 0
            else map_option Suc (topLevelReadmeIndex xs)))"

definition relocate_readme :: "info list \<Rightarrow> info list" where
  "relocate_readme rendered =
     (case topLevelReadmeIndex rendered of
        None \<Rightarrow> rendered
      | Some i \<Rightarrow>
          if i > 0 then (rendered ! i) # (take i rendered @ drop (Suc i) rendered)
          else rendered)"

definition filename_sort :: "host \<Rightarrow> info list \<Rightarrow> info list" where
  "filename_sort h rendered = array_sort (\<lambda>a b. localeCompare h (rel a) (rel b)) rendered"

text \<open>
  The part of \<open>buildHtml\<close> that orders the files: the filter, the sort of the chosen mode
  and the relocation of the readme. The result is the final order and the queries sent
  to git, or the error thrown.
\<close>

definition buildHtml_order ::
  "host \<Rightarrow> git \<Rightarrow> info list \<Rightarrow> string \<Rightarrow> error + (info list \<times> query list)" where
  "buildHtml_order h g infos sortMode =
     (let rendered = filter (\<lambda>i. included (decision i)) infos in
      if length rendered > 0 then
        (if sortMode = ''age'' then
           (let (fileAgeMap, queries) = gatherOldestCommitTimes h g (map rel rendered) in
            case orderInfosByOldest h rendered fileAgeMap of
              Inl e \<Rightarrow> Inl e
            | Inr ordered \<Rightarrow> Inr (relocate_readme ordered, queries))
         else Inr (relocate_readme (filename_sort h rendered), []))
      else Inr (relocate_readme rendered, []))"

section \<open>A host and files for the examples\<close>

text \<open>
  The examples below are evaluated on a POSIX host. Its functions are simple stand-ins
  that agree with Node on the inputs of the examples: the extension is the last segment
  from its last dot, the relative path drops the root and one separator, only ASCII
  decodes, strings are compared without case byte by byte, and a number is a run of
  decimal digits (the empty string is \<open>0\<close>, as for \<open>Number\<close>).
\<close>

definition sample_extname :: "string \<Rightarrow> string" where
  "sample_extname p =
     (let parts = split CHR ''.'' (last (split CHR ''/'' p)) in
      if length parts \<le> 1 \<or> (length parts = 2 \<and> hd parts = []) then []
      else CHR ''.'' # last parts)"

definition sample_relative :: "string \<Rightarrow> string \<Rightarrow> string" where
  "sample_relative root p = (if startsWith p (root @ ''/'') then drop (Suc (length root)) p else p)"

fun compare_bytes :: "string \<Rightarrow> string \<Rightarrow> int" where
  "compare_bytes [] [] = 0"
| "compare_bytes [] (d # ds) = - 1"
| "compare_bytes (c # cs) [] = 1"
| "compare_bytes (c # cs) (d # ds) =
     (if (of_char c :: nat) < of_char d then - 1
      else if (of_char d :: nat) < of_char c then 1
      else compare_bytes cs ds)"

definition decimal :: "string \<Rightarrow> int option" where
  "decimal s =
     (if list_all (\<lambda>c. c \<in> set ''0123456789'') s
      then Some (foldl (\<lambda>n c. 10 * n + (int (of_char c) - 48)) 0 s)
      else None)"

definition sample_host :: host where
  "sample_host =
     \<lparr>extname = sample_extname,
      relative = sample_relative,
      sep = CHR ''/'',
      utf8_decodes = list_all (\<lambda>b. b < 128),
      localeCompare = (\<lambda>a b. compare_bytes (toLowerCase a) (toLowerCase b)),
      finiteNumber = decimal\<rparr>"

definition included_file :: "string \<Rightarrow> info" where
  "included_file r =
     \<lparr>path = ''/repo/'' @ r, rel = r, size = 1, decision = \<lparr>included = True, reason = Ok\<rparr>\<rparr>"

definition excluded_file :: "string \<Rightarrow> info" where
  "excluded_file r =
     \<lparr>path = ''/repo/'' @ r, rel = r, size = 1, decision = \<lparr>included = False, reason = Ignored\<rparr>\<rparr>"

definition sample_files :: filesystem where
  "sample_files =
     \<lparr>stat_size = (\<lambda>p. if p = ''/repo/data.csv'' then Some 61440 else Some 5),
      content = (\<lambda>p. if p = ''/repo/blob.txt'' then Some [0x68, 0x00, 0x69]
                      else if p = ''/repo/gone.txt'' then None
                      else Some [0x68, 0x69, 0x0A])\<rparr>"

text \<open>
  Two answers of git for a history of two revisions, the first at time 100 touching
  \<open>a.txt\<close>, the second at time 200 touching \<open>a.txt\<close> and \<open>b/c.txt\<close>. In \<open>sample_git\<close> the bulk
  output has the layout that the loop of \<open>gatherOldestCommitTimes\<close> reads: the timestamp
  of a revision, its names on the next lines, and a blank line between revisions (what
  \<open>--pretty=format:%ct\<close> prints).
\<close>

definition sample_git :: git where
  "sample_git =
     \<lparr>log_all = Some ''100\<newline>a.txt\<newline>\<newline>200\<newline>a.txt\<newline>b/c.txt\<newline>'',
      log_follow = (\<lambda>p. if p = ''b/d.txt'' then Some ''400\<newline>300\<newline>'' else None)\<rparr>"

text \<open>
  In \<open>sample_git_tformat\<close> the bulk output has the layout of the command that the program
  runs, \<open>git log --format=%ct --name-only --reverse -- .\<close>: the timestamp, a blank line,
  then the names, and the next revision without a blank line before it.
\<close>

definition sample_git_tformat :: git where
  "sample_git_tformat =
     \<lparr>log_all = Some ''100\<newline>\<newline>a.txt\<newline>200\<newline>\<newline>a.txt\<newline>b/c.txt\<newline>'',
      log_follow = (\<lambda>p. if p = ''a.txt'' then Some ''200\<newline>100\<newline>''
                         else if p = ''b/c.txt'' then Some ''200\<newline>'' else None)\<rparr>"

section \<open>The walk over the bulk output, line by line\<close>

text \<open>
  What \<open>bulk_loop\<close> makes of the lines, whatever their layout, written without the
  pending set and the ages: a line counts as a path line when a timestamp is current,
  and it is paired with that timestamp; a blank line clears the timestamp; with no
  timestamp current a line is tried as a number. This is the reading of the loop itself,
  not a statement of what the output means, and it serves only to state what the loop
  computes.
\<close>

fun seen_paths :: "host \<Rightarrow> int option \<Rightarrow> string list \<Rightarrow> (string \<times> int) list" where
  "seen_paths h cur [] = []"
| "seen_paths h cur (rawLine # lines) =
     (let line = strip_cr rawLine in
      if line = [] then seen_paths h None lines
      else (case cur of
              None \<Rightarrow> seen_paths h (finiteNumber h (trim line)) lines
            | Some ts \<Rightarrow> (line, ts) # seen_paths h cur lines))"

text \<open>The ages after the walk from state \<open>st\<close>, given the path lines \<open>seen\<close> from there on.\<close>

definition ages_after :: "walk \<Rightarrow> (string \<times> int) list \<Rightarrow> string \<Rightarrow> int option" where
  "ages_after st seen p =
     (case fileAges st p of
        Some t \<Rightarrow> Some t
      | None \<Rightarrow> if p \<in> set (pending st) then map_of seen p else None)"

section \<open>Predicates of the specification\<close>

text \<open>
  A top-level readme, in the words of the specification: no separator in the path, and
  the lowered name is \<open>readme\<close> or starts with \<open>readme.\<close>.
\<close>

definition is_top_level_readme :: "info \<Rightarrow> bool" where
  "is_top_level_readme x =
     (\<not> js_includes (rel x) ''/'' \<and>
      (toLowerCase (rel x) = ''readme'' \<or> startsWith (toLowerCase (rel x)) ''readme.''))"

text \<open>The lines of an output made of revision blocks, each block closed by a blank line.\<close>

definition block_lines :: "string list list \<Rightarrow> string list" where
  "block_lines blocks = concat (map (\<lambda>b. b @ [[]]) blocks)"

text \<open>
  The age that the fallback query gives a path: the last part of the output that is
  separated by white space, read as a number.
\<close>

definition fallback_age :: "host \<Rightarrow> git \<Rightarrow> string \<Rightarrow> int option" where
  "fallback_age h g p =
     (case log_follow g p of
        None \<Rightarrow> None
      | Some stdout \<Rightarrow>
          (case whitespace_parts stdout of
             [] \<Rightarrow> None
           | part # parts \<Rightarrow> finiteNumber h (last (part # parts))))"

text \<open>The segments of the path of a file, and the files of a tree with their segments.\<close>

definition segments :: "info \<Rightarrow> string list" where
  "segments i = split CHR ''/'' (rel i)"

fun leaves :: "node \<Rightarrow> (string list \<times> info) list" where
  "leaves (File i a) = [([], i)]"
| "leaves (Dir cs a) = concat (map (\<lambda>(k, c). map (\<lambda>(p, i). (k # p, i)) (leaves c)) cs)"

definition prefixed :: "string \<Rightarrow> (string list \<times> info) list \<Rightarrow> (string list \<times> info) list" where
  "prefixed k ls = map (\<lambda>(p, i). (k # p, i)) ls"

definition infos_of :: "node \<Rightarrow> info multiset" where
  "infos_of t = image_mset snd (mset (leaves t))"

text \<open>\<open>file_at t p\<close>: descending from \<open>t\<close> along the keys \<open>p\<close> ends at a file node.\<close>

fun file_at :: "node \<Rightarrow> string list \<Rightarrow> bool" where
  "file_at (File i a) ks = (ks = [])"
| "file_at (Dir cs a) [] = False"
| "file_at (Dir cs a) (k # ks) = (case map_of cs k of None \<Rightarrow> False | Some c \<Rightarrow> file_at c ks)"

text \<open>Some path of the list is a proper prefix, by segments, of a path that comes later.\<close>

fun prefix_before :: "string list list \<Rightarrow> bool" where
  "prefix_before [] = False"
| "prefix_before (s # ss) = ((\<exists>q\<in>set ss. strict_prefix s q) \<or> prefix_before ss)"

text \<open>Two paths neither of which is a prefix of the other, and a list of such paths.\<close>

definition apart :: "string list \<Rightarrow> string list \<Rightarrow> bool" where
  "apart p q = (\<not> prefix p q \<and> \<not> prefix q p)"

fun all_apart :: "string list list \<Rightarrow> bool" where
  "all_apart [] = True"
| "all_apart (s # ss) = ((\<forall>q\<in>set ss. apart s q) \<and> all_apart ss)"

section \<open>Properties\<close>

text \<open>
  C1, as the specification states it: with ages \<open>a.txt: 100\<close>, \<open>b/c.txt: 50\<close> and none for
  \<open>b/d.txt\<close>, the age order would be \<open>b/c.txt\<close>, \<open>a.txt\<close>, \<open>b/d.txt\<close>. The traversal is depth
  first, so this is not the order computed.
\<close>

theorem C1_order_as_stated_counterexample:
  "orderInfosByOldest sample_host
     [included_file ''a.txt'', included_file ''b/c.txt'', included_file ''b/d.txt'']
     [''a.txt'' \<mapsto> 100, ''b/c.txt'' \<mapsto> 50]
   \<noteq> Inr [included_file ''b/c.txt'', included_file ''a.txt'', included_file ''b/d.txt'']"
  by (simp add: orderInfosByOldest_def included_file_def file_node_def array_sort_def entry_cmp_def)

text \<open>
  C1, amended: on every host, and in whichever order the three files are listed, the
  age order is \<open>b/c.txt\<close>, \<open>b/d.txt\<close>, \<open>a.txt\<close>: directory \<open>b\<close> has the propagated age 50 and
  is visited whole before \<open>a.txt\<close> of age 100, and inside \<open>b\<close> the unknown age of \<open>d.txt\<close>
  sorts last.
\<close>

theorem C1_order_depth_first:
  "(orderInfosByOldest h
       [included_file ''a.txt'', included_file ''b/c.txt'', included_file ''b/d.txt'']
       [''a.txt'' \<mapsto> 100, ''b/c.txt'' \<mapsto> 50]
     = Inr [included_file ''b/c.txt'', included_file ''b/d.txt'', included_file ''a.txt'']) \<and>
   (orderInfosByOldest h
       [included_file ''a.txt'', included_file ''b/d.txt'', included_file ''b/c.txt'']
       [''a.txt'' \<mapsto> 100, ''b/c.txt'' \<mapsto> 50]
     = Inr [included_file ''b/c.txt'', included_file ''b/d.txt'', included_file ''a.txt'']) \<and>
   (orderInfosByOldest h
       [included_file ''b/c.txt'', included_file ''a.txt'', included_file ''b/d.txt'']
       [''a.txt'' \<mapsto> 100, ''b/c.txt'' \<mapsto> 50]
     = Inr [included_file ''b/c.txt'', included_file ''b/d.txt'', included_file ''a.txt'']) \<and>
   (orderInfosByOldest h
       [included_file ''b/c.txt'', included_file ''b/d.txt'', included_file ''a.txt'']
       [''a.txt'' \<mapsto> 100, ''b/c.txt'' \<mapsto> 50]
     = Inr [included_file ''b/c.txt'', included_file ''b/d.txt'', included_file ''a.txt'']) \<and>
   (orderInfosByOldest h
       [included_file ''b/d.txt'', included_file ''a.txt'', included_file ''b/c.txt'']
       [''a.txt'' \<mapsto> 100, ''b/c.txt'' \<mapsto> 50]
     = Inr [included_file ''b/c.txt'', included_file ''b/d.txt'', included_file ''a.txt'']) \<and>
   (orderInfosByOldest h
       [included_file ''b/d.txt'', included_file ''b/c.txt'', included_file ''a.txt'']
       [''a.txt'' \<mapsto> 100, ''b/c.txt'' \<mapsto> 50]
     = Inr [included_file ''b/c.txt'', included_file ''b/d.txt'', included_file ''a.txt''])"
  by (simp add: orderInfosByOldest_def included_file_def file_node_def array_sort_def entry_cmp_def)

subsection \<open>Sorting and the relocation of the readme\<close>

lemma mset_insort_by [simp]: "mset (insort_by cmp x xs) = add_mset x (mset xs)"
  by (induction xs) auto

lemma mset_array_sort [simp]: "mset (array_sort cmp xs) = mset xs"
  unfolding array_sort_def by (induction xs) auto

lemma sorted_insort_by:
  assumes total: "\<And>a b. cmp a b \<le> 0 \<or> cmp b a \<le> 0"
      and trans: "\<And>a b c. cmp a b \<le> 0 \<Longrightarrow> cmp b c \<le> 0 \<Longrightarrow> cmp a c \<le> 0"
      and "sorted_wrt (\<lambda>a b. cmp a b \<le> 0) xs"
  shows "sorted_wrt (\<lambda>a b. cmp a b \<le> 0) (insort_by cmp x xs)"
  using assms(3)
proof (induction xs)
  case Nil
  then show ?case by simp
next
  case (Cons y ys)
  show ?case
  proof (cases "cmp x y \<le> 0")
    case True
    with Cons.prems trans show ?thesis by auto
  next
    case False
    with total have "cmp y x \<le> 0" by blast
    with False Cons show ?thesis by auto
  qed
qed

lemma sorted_array_sort:
  assumes total: "\<And>a b. cmp a b \<le> 0 \<or> cmp b a \<le> 0"
      and trans: "\<And>a b c. cmp a b \<le> 0 \<Longrightarrow> cmp b c \<le> 0 \<Longrightarrow> cmp a c \<le> 0"
  shows "sorted_wrt (\<lambda>a b. cmp a b \<le> 0) (array_sort cmp xs)"
  unfolding array_sort_def
  by (induction xs) (auto intro: sorted_insort_by [OF total trans])

lemma topLevelReadmeIndex_Some:
  "topLevelReadmeIndex xs = Some i \<Longrightarrow>
     i < length xs \<and> is_top_level_readme (xs ! i) \<and> (\<forall>j<i. \<not> is_top_level_readme (xs ! j))"
proof (induction xs arbitrary: i)
  case Nil
  then show ?case by simp
next
  case (Cons x xs)
  show ?case
  proof (cases "is_top_level_readme x")
    case True
    with Cons.prems have "i = 0"
      by (auto simp: is_top_level_readme_def Let_def)
    with True show ?thesis by simp
  next
    case False
    with Cons.prems obtain k where k: "topLevelReadmeIndex xs = Some k" "i = Suc k"
      by (auto simp: is_top_level_readme_def Let_def split: if_splits)
    from Cons.IH [OF k(1)] False k(2) show ?thesis
      by (auto simp: less_Suc_eq_0_disj)
  qed
qed

lemma topLevelReadmeIndex_None:
  "topLevelReadmeIndex xs = None \<longleftrightarrow> (\<forall>x\<in>set xs. \<not> is_top_level_readme x)"
  by (induction xs) (auto simp: is_top_level_readme_def Let_def)

lemma relocate_readme_found:
  assumes "\<exists>x\<in>set xs. is_top_level_readme x"
  shows "\<exists>i<length xs. is_top_level_readme (xs ! i) \<and> (\<forall>j<i. \<not> is_top_level_readme (xs ! j)) \<and>
           relocate_readme xs = (xs ! i) # (take i xs @ drop (Suc i) xs)"
proof -
  from assms obtain i where i: "topLevelReadmeIndex xs = Some i"
    using topLevelReadmeIndex_None [of xs] by (cases "topLevelReadmeIndex xs") auto
  note p = topLevelReadmeIndex_Some [OF i]
  have "relocate_readme xs = (xs ! i) # (take i xs @ drop (Suc i) xs)"
  proof (cases "i = 0")
    case True
    with p have "xs = xs ! 0 # drop (Suc 0) xs"
      by (cases xs) auto
    with True i show ?thesis by (simp add: relocate_readme_def)
  next
    case False
    with i show ?thesis by (simp add: relocate_readme_def)
  qed
  with p show ?thesis by blast
qed

lemma relocate_readme_absent:
  "\<not> (\<exists>x\<in>set xs. is_top_level_readme x) \<Longrightarrow> relocate_readme xs = xs"
  using topLevelReadmeIndex_None [of xs] by (simp add: relocate_readme_def)

lemma mset_relocate_readme [simp]: "mset (relocate_readme xs) = mset xs"
proof (cases "topLevelReadmeIndex xs")
  case None
  then show ?thesis by (simp add: relocate_readme_def)
next
  case (Some i)
  then have "i < length xs" using topLevelReadmeIndex_Some by blast
  then have "xs = take i xs @ xs ! i # drop (Suc i) xs"
    by (simp add: id_take_nth_drop)
  then have "mset xs = mset (xs ! i # (take i xs @ drop (Suc i) xs))"
    by (metis mset.simps(2) mset_append union_mset_add_mset_right)
  with Some show ?thesis by (simp add: relocate_readme_def)
qed

subsection \<open>Classifier\<close>

text \<open>
  C4: a candidate that is neither ignored nor too large is included, with reason
  \<open>binary\<close> or \<open>ok\<close>. An extension of the force-text list gives \<open>ok\<close> whatever the content;
  otherwise an extension of the binary list gives \<open>binary\<close>; otherwise a read error gives
  \<open>binary\<close>, and a file that is read is \<open>binary\<close> exactly when its first 8192 bytes hold a
  zero byte or do not decode as UTF-8.
\<close>

theorem C4_binary_decision:
  assumes "reason (decision (decideFile h fs filePath repoRoot maxBytes)) \<noteq> Ignored"
      and "reason (decision (decideFile h fs filePath repoRoot maxBytes)) \<noteq> Too_large"
  shows "let d = decision (decideFile h fs filePath repoRoot maxBytes);
             ext = toLowerCase (extname h filePath) in
         included d \<and> (reason d = Binary \<or> reason d = Ok) \<and>
         (ext \<in> set FORCE_TEXT_EXTENSIONS \<longrightarrow> reason d = Ok) \<and>
         (ext \<notin> set FORCE_TEXT_EXTENSIONS \<and> ext \<in> set BINARY_EXTENSIONS
            \<longrightarrow> reason d = Binary) \<and>
         (ext \<notin> set FORCE_TEXT_EXTENSIONS \<and> ext \<notin> set BINARY_EXTENSIONS \<longrightarrow>
            (case content fs filePath of
               None \<Rightarrow> reason d = Binary
             | Some bytes \<Rightarrow>
                 (reason d = Binary \<longleftrightarrow>
                    (0 \<in> set (take 8192 bytes) \<or> \<not> utf8_decodes h (take 8192 bytes)))))"
  using assms
  by (auto simp: decideFile_def looksBinary_def Let_def 
           split: option.splits if_splits)

text \<open>
  The file \<open>blob.txt\<close> of the example has a zero byte: it is neither ignored nor too
  large, and it is included as binary although its extension is \<open>.txt\<close>.
\<close>

theorem C4_binary_decision_witness:
  "reason (decision (decideFile sample_host sample_files ''/repo/blob.txt'' ''/repo'' 51200)) \<noteq> Ignored \<and>
   reason (decision (decideFile sample_host sample_files ''/repo/blob.txt'' ''/repo'' 51200)) \<noteq> Too_large \<and>
   included (decision (decideFile sample_host sample_files ''/repo/blob.txt'' ''/repo'' 51200)) \<and>
   reason (decision (decideFile sample_host sample_files ''/repo/blob.txt'' ''/repo'' 51200)) = Binary"
proof -
  let ?d = "decision (decideFile sample_host sample_files ''/repo/blob.txt'' ''/repo'' 51200)"
  have rel: "join ''/'' (split CHR ''/'' (sample_relative ''/repo'' ''/repo/blob.txt'')) = ''blob.txt''"
    by (simp add: sample_relative_def startsWith_def)
  have ext: "toLowerCase (sample_extname ''/repo/blob.txt'') = ''.txt''"
    by (simp add: sample_extname_def toLowerCase.simps toLowerCase_char_def)
  have large: "''.txt'' \<notin> set LARGE_DATA_EXTENSIONS"
    by (simp add: LARGE_DATA_EXTENSIONS_def)
  have h1: "reason ?d \<noteq> Ignored"
    by (simp add: decideFile_def Let_def sample_host_def rel ext large startsWith_def)
  have h2: "reason ?d \<noteq> Too_large"
    by (simp add: decideFile_def Let_def sample_host_def rel ext large startsWith_def)
  have force: "''.txt'' \<notin> set FORCE_TEXT_EXTENSIONS"
    by (simp add: FORCE_TEXT_EXTENSIONS_def)
  have bin: "''.txt'' \<notin> set BINARY_EXTENSIONS"
    by (simp add: BINARY_EXTENSIONS_def)
  from C4_binary_decision [OF h1 h2] force bin have "included ?d \<and> reason ?d = Binary"
    by (simp add: Let_def sample_host_def sample_files_def ext)
  with h1 h2 show ?thesis by simp
qed

text \<open>
  C5, at a file named \<open>.git\<close> below the root (the link file of a submodule or worktree):
  the top-level \<open>.git\<close> and what lies under a \<open>.git\<close> directory are ignored, the nested
  file \<open>sub/.git\<close> is classified as an ordinary text file.
\<close>

theorem C5_nested_git_file_not_ignored:
  "decision (decideFile sample_host sample_files ''/repo/.git'' ''/repo'' 51200)
     = \<lparr>included = False, reason = Ignored\<rparr> \<and>
   decision (decideFile sample_host sample_files ''/repo/sub/.git/config'' ''/repo'' 51200)
     = \<lparr>included = False, reason = Ignored\<rparr> \<and>
   decision (decideFile sample_host sample_files ''/repo/sub/.git'' ''/repo'' 51200)
     = \<lparr>included = True, reason = Ok\<rparr>"
  by (simp add: decideFile_def looksBinary_def Let_def sample_host_def sample_files_def
        sample_relative_def sample_extname_def startsWith_def toLowerCase.simps toLowerCase_char_def
        LARGE_DATA_EXTENSIONS_def FORCE_TEXT_EXTENSIONS_def BINARY_EXTENSIONS_def)

subsection \<open>Readme relocation\<close>

text \<open>
  C6: if the sorted list holds a top-level readme, the first one in the sorted order
  becomes the head of the final order and the other files keep their order; without
  one the order is unchanged; a file that is moved is never a nested one; and in both
  sort modes the final order is the relocation applied to the sorted list.
\<close>

theorem C6_readme_relocation:
  "((\<exists>x\<in>set rendered. is_top_level_readme x) \<longrightarrow>
      (\<exists>i<length rendered. is_top_level_readme (rendered ! i) \<and>
         (\<forall>j<i. \<not> is_top_level_readme (rendered ! j)) \<and>
         relocate_readme rendered = (rendered ! i) # (take i rendered @ drop (Suc i) rendered))) \<and>
   (\<not> (\<exists>x\<in>set rendered. is_top_level_readme x) \<longrightarrow> relocate_readme rendered = rendered) \<and>
   (relocate_readme rendered \<noteq> rendered \<longrightarrow> \<not> js_includes (rel (hd (relocate_readme rendered))) ''/'') \<and>
   (sortMode \<noteq> ''age'' \<longrightarrow>
      map_sum id fst (buildHtml_order h g infos sortMode)
        = Inr (relocate_readme (filename_sort h (filter (\<lambda>i. included (decision i)) infos)))) \<and>
   (sortMode = ''age'' \<longrightarrow>
      (\<forall>ordered.
         orderInfosByOldest h (filter (\<lambda>i. included (decision i)) infos)
           (fst (gatherOldestCommitTimes h g (map rel (filter (\<lambda>i. included (decision i)) infos))))
           = Inr ordered
         \<longrightarrow> map_sum id fst (buildHtml_order h g infos sortMode) = Inr (relocate_readme ordered)))"
proof (intro conjI impI allI)
  assume "\<exists>x\<in>set rendered. is_top_level_readme x"
  then show "\<exists>i<length rendered. is_top_level_readme (rendered ! i) \<and>
         (\<forall>j<i. \<not> is_top_level_readme (rendered ! j)) \<and>
         relocate_readme rendered = (rendered ! i) # (take i rendered @ drop (Suc i) rendered)"
    by (rule relocate_readme_found)
next
  assume "\<not> (\<exists>x\<in>set rendered. is_top_level_readme x)"
  then show "relocate_readme rendered = rendered"
    by (rule relocate_readme_absent)
next
  assume moved: "relocate_readme rendered \<noteq> rendered"
  then have "\<exists>x\<in>set rendered. is_top_level_readme x"
    using relocate_readme_absent by blast
  from relocate_readme_found [OF this]
  show "\<not> js_includes (rel (hd (relocate_readme rendered))) ''/''"
    by (auto simp: is_top_level_readme_def)
next
  assume "sortMode \<noteq> ''age''"
  then show "map_sum id fst (buildHtml_order h g infos sortMode)
        = Inr (relocate_readme (filename_sort h (filter (\<lambda>i. included (decision i)) infos)))"
    by (simp add: buildHtml_order_def Let_def filename_sort_def array_sort_def)
next
  fix ordered
  assume "sortMode = ''age''"
     and "orderInfosByOldest h (filter (\<lambda>i. included (decision i)) infos)
           (fst (gatherOldestCommitTimes h g (map rel (filter (\<lambda>i. included (decision i)) infos))))
           = Inr ordered"
  then show "map_sum id fst (buildHtml_order h g infos sortMode) = Inr (relocate_readme ordered)"
    by (cases "filter (\<lambda>i. included (decision i)) infos = []")
       (auto simp: buildHtml_order_def Let_def orderInfosByOldest_def array_sort_def split: prod.splits)
qed

text \<open>
  A sorted list with a nested readme and two top-level ones: the first top-level readme
  moves to the head and the other files keep their order.
\<close>

theorem C6_readme_relocation_witness:
  "(\<exists>x\<in>set [included_file ''a.txt'', included_file ''sub/README.md'', included_file ''Readme.MD'',
              included_file ''README''].
      is_top_level_readme x) \<and>
   relocate_readme
     [included_file ''a.txt'', included_file ''sub/README.md'', included_file ''Readme.MD'',
      included_file ''README'']
   = [included_file ''Readme.MD'', included_file ''a.txt'', included_file ''sub/README.md'',
      included_file ''README'']"
  using C6_readme_relocation
    [of "[included_file ''a.txt'', included_file ''sub/README.md'', included_file ''Readme.MD'',
          included_file ''README'']"]
  by (simp add: is_top_level_readme_def included_file_def relocate_readme_def
        toLowerCase.simps toLowerCase_char_def startsWith_def)

subsection \<open>Filename mode\<close>

lemma compare_bytes_total: "compare_bytes a b \<le> 0 \<or> compare_bytes b a \<le> 0"
  by (induction a b rule: compare_bytes.induct) auto

lemma compare_bytes_trans:
  "compare_bytes a b \<le> 0 \<Longrightarrow> compare_bytes b c \<le> 0 \<Longrightarrow> compare_bytes a c \<le> 0"
proof (induction a arbitrary: b c)
  case Nil
  then show ?case by (cases c) auto
next
  case (Cons x xs)
  show ?case
  proof (cases b)
    case Nil
    with Cons.prems show ?thesis by simp
  next
    case b: (Cons y ys)
    show ?thesis
    proof (cases c)
      case Nil
      with Cons.prems b show ?thesis by simp
    next
      case c: (Cons z zs)
      from Cons.prems(1) b have xy: "(of_char x :: nat) \<le> of_char y"
        by (simp split: if_splits)
      from Cons.prems(2) b c have yz: "(of_char y :: nat) \<le> of_char z"
        by (simp split: if_splits)
      show ?thesis
      proof (cases "(of_char x :: nat) < of_char z")
        case True
        with c show ?thesis by simp
      next
        case False
        with xy yz have "(of_char x :: nat) = of_char y" "(of_char y :: nat) = of_char z"
          by linarith+
        then have e: "x = y" "y = z"
          by simp_all
        with Cons.prems b c have "compare_bytes xs ys \<le> 0" "compare_bytes ys zs \<le> 0"
          by simp_all
        then have "compare_bytes xs zs \<le> 0" by (rule Cons.IH)
        with e c show ?thesis by simp
      qed
    qed
  qed
qed

text \<open>
  C9: in a sort mode other than \<open>age\<close> no query is sent to git and the result is the
  same whatever git would answer; the order before the relocation of the readme is
  \<open>filename_sort\<close>, a permutation of the included files that is sorted by the
  comparison \<open>localeCompare\<close> of their paths (the case-insensitive comparison of the
  platform, a total and transitive comparator).
\<close>

theorem C9_filename_mode:
  assumes "sortMode \<noteq> ''age''"
  shows "buildHtml_order h g infos sortMode
           = Inr (relocate_readme (filename_sort h (filter (\<lambda>i. included (decision i)) infos)), []) \<and>
         buildHtml_order h g infos sortMode = buildHtml_order h g' infos sortMode \<and>
         mset (filename_sort h rendered) = mset rendered \<and>
         ((\<forall>a b. localeCompare h a b \<le> 0 \<or> localeCompare h b a \<le> 0) \<and>
          (\<forall>a b c. localeCompare h a b \<le> 0 \<and> localeCompare h b c \<le> 0 \<longrightarrow> localeCompare h a c \<le> 0)
          \<longrightarrow> sorted_wrt (\<lambda>a b. localeCompare h (rel a) (rel b) \<le> 0) (filename_sort h rendered))"
proof -
  have eq: "\<And>g. buildHtml_order h g infos sortMode
           = Inr (relocate_readme (filename_sort h (filter (\<lambda>i. included (decision i)) infos)), [])"
    using assms by (simp add: buildHtml_order_def Let_def filename_sort_def array_sort_def)
  have perm: "mset (filename_sort h rendered) = mset rendered"
    by (simp add: filename_sort_def)
  have sorted: "sorted_wrt (\<lambda>a b. localeCompare h (rel a) (rel b) \<le> 0) (filename_sort h rendered)"
    if total: "\<forall>a b. localeCompare h a b \<le> 0 \<or> localeCompare h b a \<le> 0"
    and trans: "\<forall>a b c. localeCompare h a b \<le> 0 \<and> localeCompare h b c \<le> 0 \<longrightarrow> localeCompare h a c \<le> 0"
    unfolding filename_sort_def
  proof (rule sorted_array_sort)
    show "localeCompare h (rel a) (rel b) \<le> 0 \<or> localeCompare h (rel b) (rel a) \<le> 0" for a b :: info
      using total by blast
    show "localeCompare h (rel a) (rel c) \<le> 0"
      if "localeCompare h (rel a) (rel b) \<le> 0" "localeCompare h (rel b) (rel c) \<le> 0" for a b c :: info
      using trans that by blast
  qed
  have same: "buildHtml_order h g infos sortMode = buildHtml_order h g' infos sortMode"
    by (simp only: eq)
  from eq [of g] same perm sorted show ?thesis by blast
qed

text \<open>
  On the example host in mode \<open>filename\<close>: no query is sent, and \<open>apple.md\<close> comes before
  \<open>b/d.txt\<close>, which comes before \<open>Zebra.md\<close>.
\<close>

theorem C9_filename_mode_witness:
  "''filename'' \<noteq> ''age'' \<and>
   buildHtml_order sample_host sample_git
     [included_file ''b/d.txt'', included_file ''Zebra.md'', included_file ''apple.md'']
     ''filename''
   = Inr ([included_file ''apple.md'', included_file ''b/d.txt'', included_file ''Zebra.md''], []) \<and>
   sorted_wrt (\<lambda>a b. localeCompare sample_host (rel a) (rel b) \<le> 0)
     (filename_sort sample_host
        [included_file ''b/d.txt'', included_file ''Zebra.md'', included_file ''apple.md''])"
proof -
  have mode: "''filename'' \<noteq> ''age''" by simp
  have total: "\<forall>a b. localeCompare sample_host a b \<le> 0 \<or> localeCompare sample_host b a \<le> 0"
    by (simp add: sample_host_def compare_bytes_total)
  have trans: "\<forall>a b c. localeCompare sample_host a b \<le> 0 \<and> localeCompare sample_host b c \<le> 0
                 \<longrightarrow> localeCompare sample_host a c \<le> 0"
    using compare_bytes_trans by (auto simp: sample_host_def)
  have lower: "toLowerCase ''b/d.txt'' = ''b/d.txt''" "toLowerCase ''Zebra.md'' = ''zebra.md''"
    "toLowerCase ''apple.md'' = ''apple.md''"
    by (simp_all add: toLowerCase.simps toLowerCase_char_def)
  have sort: "filename_sort sample_host
        [included_file ''b/d.txt'', included_file ''Zebra.md'', included_file ''apple.md'']
      = [included_file ''apple.md'', included_file ''b/d.txt'', included_file ''Zebra.md'']"
    by (simp add: filename_sort_def array_sort_def sample_host_def included_file_def lower)
  have readme: "relocate_readme
        [included_file ''apple.md'', included_file ''b/d.txt'', included_file ''Zebra.md'']
      = [included_file ''apple.md'', included_file ''b/d.txt'', included_file ''Zebra.md'']"
    by (simp add: relocate_readme_def included_file_def lower startsWith_def)
  have incl: "filter (\<lambda>i. included (decision i))
        [included_file ''b/d.txt'', included_file ''Zebra.md'', included_file ''apple.md'']
      = [included_file ''b/d.txt'', included_file ''Zebra.md'', included_file ''apple.md'']"
    by (simp add: included_file_def)
  note inst = C9_filename_mode [OF mode, of sample_host sample_git
      "[included_file ''b/d.txt'', included_file ''Zebra.md'', included_file ''apple.md'']"
      sample_git
      "[included_file ''b/d.txt'', included_file ''Zebra.md'', included_file ''apple.md'']"]
  from inst have order: "buildHtml_order sample_host sample_git
     [included_file ''b/d.txt'', included_file ''Zebra.md'', included_file ''apple.md'']
     ''filename''
   = Inr ([included_file ''apple.md'', included_file ''b/d.txt'', included_file ''Zebra.md''], [])"
    unfolding incl sort readme by (rule conjunct1)
  from inst total trans have "sorted_wrt (\<lambda>a b. localeCompare sample_host (rel a) (rel b) \<le> 0)
     (filename_sort sample_host
        [included_file ''b/d.txt'', included_file ''Zebra.md'', included_file ''apple.md''])"
    by blast
  with mode order show ?thesis by blast
qed

subsection \<open>What the walk over the bulk output computes\<close>

lemma bulk_loop_blank:
  "strip_cr rawLine = [] \<Longrightarrow>
   bulk_loop h (rawLine # lines) st = bulk_loop h lines (st\<lparr>currentTimestamp := None\<rparr>)"
  by (simp add: Let_def)

lemma bulk_loop_header:
  "strip_cr rawLine \<noteq> [] \<Longrightarrow> currentTimestamp st = None \<Longrightarrow>
   bulk_loop h (rawLine # lines) st =
     (case finiteNumber h (trim (strip_cr rawLine)) of
        Some parsed \<Rightarrow> bulk_loop h lines (st\<lparr>currentTimestamp := Some parsed\<rparr>)
      | None \<Rightarrow> bulk_loop h lines st)"
  by (simp add: Let_def)

lemma bulk_loop_path:
  "strip_cr rawLine \<noteq> [] \<Longrightarrow> currentTimestamp st = Some ts \<Longrightarrow>
   bulk_loop h (rawLine # lines) st =
     (if pending st = [] then st
      else if strip_cr rawLine \<notin> set (pending st) then bulk_loop h lines st
      else if fileAges st (strip_cr rawLine) = None then
        bulk_loop h lines
          (st\<lparr>fileAges := (fileAges st)(strip_cr rawLine \<mapsto> ts),
             pending := removeAll (strip_cr rawLine) (pending st)\<rparr>)
      else bulk_loop h lines st)"
  by (simp add: Let_def)

lemma seen_paths_blank:
  "strip_cr rawLine = [] \<Longrightarrow> seen_paths h cur (rawLine # lines) = seen_paths h None lines"
  by (simp add: Let_def)

lemma seen_paths_header:
  "strip_cr rawLine \<noteq> [] \<Longrightarrow>
   seen_paths h None (rawLine # lines) = seen_paths h (finiteNumber h (trim (strip_cr rawLine))) lines"
  by (simp add: Let_def)

lemma seen_paths_path:
  "strip_cr rawLine \<noteq> [] \<Longrightarrow>
   seen_paths h (Some ts) (rawLine # lines) = (strip_cr rawLine, ts) # seen_paths h (Some ts) lines"
  by (simp add: Let_def)

declare bulk_loop.simps(2) [simp del] seen_paths.simps(2) [simp del]

lemmas bulk_loop_steps = bulk_loop_blank bulk_loop_header bulk_loop_path
  seen_paths_blank seen_paths_header seen_paths_path

lemma bulk_loop_fileAges:
  "fileAges (bulk_loop h lines st) p = ages_after st (seen_paths h (currentTimestamp st) lines) p"
proof (induction lines arbitrary: st)
  case Nil
  then show ?case by (simp add: ages_after_def split: option.splits)
next
  case (Cons rawLine lines)
  show ?case
  proof (cases "strip_cr rawLine = []")
    case True
    then show ?thesis
      by (simp add: bulk_loop_steps Cons.IH ages_after_def)
  next
    case line: False
    show ?thesis
    proof (cases "currentTimestamp st")
      case None
      show ?thesis
      proof (cases "finiteNumber h (trim (strip_cr rawLine))")
        case n: None
        from line None n show ?thesis
          by (simp add: bulk_loop_steps Cons.IH)
      next
        case (Some parsed)
        from line None Some show ?thesis
          by (simp add: bulk_loop_steps Cons.IH ages_after_def)
      qed
    next
      case (Some ts)
      note step = bulk_loop_path [OF line Some] seen_paths_path [OF line]
      consider (finished) "pending st = []"
        | (other) "pending st \<noteq> []" "strip_cr rawLine \<notin> set (pending st)"
        | (known) "pending st \<noteq> []" "strip_cr rawLine \<in> set (pending st)"
            "fileAges st (strip_cr rawLine) \<noteq> None"
        | (fresh) "pending st \<noteq> []" "strip_cr rawLine \<in> set (pending st)"
            "fileAges st (strip_cr rawLine) = None"
        by blast
      then show ?thesis
      proof cases
        case finished
        with Some show ?thesis
          by (cases "fileAges st p") (simp_all add: step ages_after_def)
      next
        case other
        with Some show ?thesis
          by (cases "fileAges st p") (auto simp: step Cons.IH ages_after_def)
      next
        case known
        with Some show ?thesis
          by (cases "fileAges st p") (auto simp: step Cons.IH ages_after_def)
      next
        case fresh
        with Some show ?thesis
          by (cases "fileAges st p") (auto simp: step Cons.IH ages_after_def)
      qed
    qed
  qed
qed

lemma bulk_loop_pending:
  "\<forall>p\<in>set (pending st). fileAges st p = None \<Longrightarrow>
   pending (bulk_loop h lines st) =
     filter (\<lambda>p. map_of (seen_paths h (currentTimestamp st) lines) p = None) (pending st)"
proof (induction lines arbitrary: st)
  case Nil
  then show ?case by simp
next
  case (Cons rawLine lines)
  show ?case
  proof (cases "strip_cr rawLine = []")
    case True
    with Cons.prems show ?thesis by (simp add: bulk_loop_steps Cons.IH)
  next
    case line: False
    show ?thesis
    proof (cases "currentTimestamp st")
      case None
      with line Cons.prems show ?thesis
        by (cases "finiteNumber h (trim (strip_cr rawLine))") (simp_all add: bulk_loop_steps Cons.IH)
    next
      case (Some ts)
      note step = bulk_loop_path [OF line Some] seen_paths_path [OF line]
      show ?thesis
      proof (cases "strip_cr rawLine \<in> set (pending st)")
        case False
        then have "filter (\<lambda>p. map_of ((strip_cr rawLine, ts) # seen_paths h (Some ts) lines) p = None) (pending st)
            = filter (\<lambda>p. map_of (seen_paths h (Some ts) lines) p = None) (pending st)"
          by (intro filter_cong) auto
        with False Some Cons.prems show ?thesis
          by (cases "pending st = []") (simp_all add: step Cons.IH)
      next
        case True
        let ?st = "st\<lparr>fileAges := (fileAges st)(strip_cr rawLine \<mapsto> ts),
                      pending := removeAll (strip_cr rawLine) (pending st)\<rparr>"
        from True Cons.prems have none: "fileAges st (strip_cr rawLine) = None" by blast
        from Cons.prems have inv: "\<forall>p\<in>set (pending ?st). fileAges ?st p = None" by simp
        have "filter (\<lambda>p. map_of ((strip_cr rawLine, ts) # seen_paths h (Some ts) lines) p = None) xs
            = filter (\<lambda>p. map_of (seen_paths h (Some ts) lines) p = None)
                (removeAll (strip_cr rawLine) xs)" for xs
          by (induction xs) auto
        with True Some none Cons.IH [OF inv] show ?thesis
          by (cases "pending st = []") (simp_all add: step)
      qed
    qed
  qed
qed

lemma bulk_loop_finished:
  assumes "pending st = []"
  shows "fileAges (bulk_loop h lines st) = fileAges st" and "pending (bulk_loop h lines st) = []"
proof -
  show "fileAges (bulk_loop h lines st) = fileAges st"
  proof (rule ext)
    fix p show "fileAges (bulk_loop h lines st) p = fileAges st p"
      using assms by (cases "fileAges st p") (simp_all add: bulk_loop_fileAges ages_after_def)
  qed
  show "pending (bulk_loop h lines st) = []"
    using assms by (simp add: bulk_loop_pending)
qed

lemma bulk_phase_ok:
  assumes "log_all g = Some stdout"
  shows "fileAges (bulk_phase h g paths) p =
           (if p \<in> set paths then map_of (seen_paths h None (split (CHR 0x0A) stdout)) p else None)"
    and "pending (bulk_phase h g paths) =
           filter (\<lambda>p. map_of (seen_paths h None (split (CHR 0x0A) stdout)) p = None) paths"
  using assms by (simp_all add: bulk_phase_def bulk_loop_fileAges bulk_loop_pending ages_after_def)

lemma bulk_phase_failed:
  "log_all g = None \<Longrightarrow>
   bulk_phase h g paths = \<lparr>currentTimestamp = None, pending = paths, fileAges = Map.empty\<rparr>"
  by (simp add: bulk_phase_def)

lemma bulk_phase_invariant:
  "p \<in> set (pending (bulk_phase h g paths)) \<Longrightarrow> fileAges (bulk_phase h g paths) p = None"
  by (cases "log_all g") (auto simp: bulk_phase_failed bulk_phase_ok)

lemma bulk_phase_pending_subset:
  "set (pending (bulk_phase h g paths)) \<subseteq> set paths"
  by (cases "log_all g") (auto simp: bulk_phase_failed bulk_phase_ok)

lemma bulk_phase_pending_distinct:
  "distinct paths \<Longrightarrow> distinct (pending (bulk_phase h g paths))"
  by (cases "log_all g") (auto simp: bulk_phase_failed bulk_phase_ok)

text \<open>
  C3, on the output of the command that the program runs. The names of a revision come
  after a blank line, which clears the current timestamp, so each name is tried as a
  number and skipped: no age is recorded, both paths stay pending, and every path gets
  a query of its own in the fallback phase. On the same history in the layout that the
  loop reads, \<open>a.txt\<close> gets the timestamp 100 of the first block that lists it, \<open>b/c.txt\<close>
  gets 200, and only \<open>b/d.txt\<close>, which no block lists, stays pending; a carriage return
  at the end of a line is dropped before the line is read.
\<close>

theorem C3_bulk_phase_records_nothing_on_git_output:
  "fileAges (bulk_phase sample_host sample_git_tformat [''a.txt'', ''b/c.txt'']) = Map.empty \<and>
   pending (bulk_phase sample_host sample_git_tformat [''a.txt'', ''b/c.txt''])
     = [''a.txt'', ''b/c.txt''] \<and>
   snd (gatherOldestCommitTimes sample_host sample_git_tformat [''a.txt'', ''b/c.txt''])
     = [LogAll, LogFollow ''a.txt'', LogFollow ''b/c.txt''] \<and>
   fileAges (bulk_phase sample_host sample_git [''a.txt'', ''b/c.txt'', ''b/d.txt''])
     = [''a.txt'' \<mapsto> 100, ''b/c.txt'' \<mapsto> 200] \<and>
   pending (bulk_phase sample_host sample_git [''a.txt'', ''b/c.txt'', ''b/d.txt''])
     = [''b/d.txt''] \<and>
   fileAges (bulk_loop sample_host
       [''100'' @ [CHR 0x0D], ''a.txt'' @ [CHR 0x0D], [CHR 0x0D], ''b/c.txt'' @ [CHR 0x0D]]
       \<lparr>currentTimestamp = None, pending = [''a.txt'', ''b/c.txt''], fileAges = Map.empty\<rparr>)
     = [''a.txt'' \<mapsto> 100]"
proof -
  have lines: "split (CHR 0x0A) ''100\<newline>\<newline>a.txt\<newline>200\<newline>\<newline>a.txt\<newline>b/c.txt\<newline>''
      = [''100'', [], ''a.txt'', ''200'', [], ''a.txt'', ''b/c.txt'', []]"
    by simp
  have tformat: "bulk_phase sample_host sample_git_tformat [''a.txt'', ''b/c.txt'']
      = \<lparr>currentTimestamp = None, pending = [''a.txt'', ''b/c.txt''], fileAges = Map.empty\<rparr>"
    by (simp add: bulk_phase_def sample_git_tformat_def lines bulk_loop.simps Let_def strip_cr_def
          trim_def is_space_def sample_host_def decimal_def)
  have uniq: "uniq [''a.txt'', ''b/c.txt''] = [''a.txt'', ''b/c.txt'']"
    by (simp add: uniq_def)
  have queries: "snd (gatherOldestCommitTimes sample_host sample_git_tformat [''a.txt'', ''b/c.txt''])
      = [LogAll, LogFollow ''a.txt'', LogFollow ''b/c.txt'']"
    by (simp add: gatherOldestCommitTimes_def uniq tformat Let_def)
  have lines': "split (CHR 0x0A) ''100\<newline>a.txt\<newline>\<newline>200\<newline>a.txt\<newline>b/c.txt\<newline>''
      = [''100'', ''a.txt'', [], ''200'', ''a.txt'', ''b/c.txt'', []]"
    by simp
  have format: "bulk_phase sample_host sample_git [''a.txt'', ''b/c.txt'', ''b/d.txt'']
      = \<lparr>currentTimestamp = None, pending = [''b/d.txt''],
         fileAges = [''a.txt'' \<mapsto> 100, ''b/c.txt'' \<mapsto> 200]\<rparr>"
    by (simp add: bulk_phase_def sample_git_def lines' bulk_loop.simps Let_def strip_cr_def
          trim_def is_space_def sample_host_def decimal_def)
  have crlf: "fileAges (bulk_loop sample_host
       [''100'' @ [CHR 0x0D], ''a.txt'' @ [CHR 0x0D], [CHR 0x0D], ''b/c.txt'' @ [CHR 0x0D]]
       \<lparr>currentTimestamp = None, pending = [''a.txt'', ''b/c.txt''], fileAges = Map.empty\<rparr>)
     = [''a.txt'' \<mapsto> 100]"
    by (simp add: bulk_loop.simps Let_def strip_cr_def trim_def is_space_def sample_host_def
          decimal_def)
  show ?thesis
    unfolding tformat format queries crlf by simp
qed

subsection \<open>The fallback queries\<close>

lemma fallback_step_eq:
  "fallback_step h g ages r = (case fallback_age h g r of Some t \<Rightarrow> ages(r \<mapsto> t) | None \<Rightarrow> ages)"
  by (auto simp: fallback_step_def fallback_age_def Let_def split: option.splits list.splits)

lemma foldl_fallback_step:
  "foldl (fallback_step h g) ages ps p =
     (if p \<in> set ps then (case fallback_age h g p of Some t \<Rightarrow> Some t | None \<Rightarrow> ages p) else ages p)"
proof (induction ps arbitrary: ages)
  case Nil
  then show ?case by simp
next
  case (Cons r ps)
  have "foldl (fallback_step h g) ages (r # ps) p
      = foldl (fallback_step h g) (fallback_step h g ages r) ps p"
    by simp
  also have "\<dots> = (if p \<in> set ps
                     then (case fallback_age h g p of Some t \<Rightarrow> Some t
                           | None \<Rightarrow> fallback_step h g ages r p)
                     else fallback_step h g ages r p)"
    by (rule Cons.IH)
  also have "fallback_step h g ages r p
      = (if p = r then (case fallback_age h g p of Some t \<Rightarrow> Some t | None \<Rightarrow> ages p) else ages p)"
    by (cases "fallback_age h g r") (simp_all add: fallback_step_eq)
  finally show ?case
    by (cases "fallback_age h g p") auto
qed

subsection \<open>Revision blocks without a timestamp\<close>

lemma bulk_loop_skip_junk:
  assumes "currentTimestamp st = None"
      and "list_all (\<lambda>l. strip_cr l \<noteq> [] \<and> finiteNumber h (trim (strip_cr l)) = None) junk"
  shows "bulk_loop h (junk @ rest) st = bulk_loop h rest st"
  using assms by (induction junk) (simp_all add: bulk_loop_header)

lemma bulk_loop_after_blank:
  assumes "\<And>st. currentTimestamp st = None \<Longrightarrow> bulk_loop h xs st = bulk_loop h ys st"
  shows "bulk_loop h (pre @ [] # xs) st = bulk_loop h (pre @ [] # ys) st"
proof (induction pre arbitrary: st)
  case Nil
  have "strip_cr [] = []" by (simp add: strip_cr_def)
  then show ?case by (simp add: bulk_loop_blank assms)
next
  case (Cons l pre)
  show ?case
  proof (cases "strip_cr l = []")
    case True
    then show ?thesis by (simp add: bulk_loop_blank Cons.IH)
  next
    case line: False
    show ?thesis
    proof (cases "currentTimestamp st")
      case None
      with line show ?thesis
        by (cases "finiteNumber h (trim (strip_cr l))") (simp_all add: bulk_loop_header Cons.IH)
    next
      case (Some ts)
      with line show ?thesis
        by (simp add: bulk_loop_path Cons.IH)
    qed
  qed
qed

lemma block_lines_append: "block_lines (bs @ cs) = block_lines bs @ block_lines cs"
  by (simp add: block_lines_def)

lemma block_lines_Cons: "block_lines (b # bs) = b @ [] # block_lines bs"
  by (simp add: block_lines_def)

lemma block_lines_snoc: "bs \<noteq> [] \<Longrightarrow> \<exists>pre. block_lines bs = pre @ [[]]"
  by (induction bs rule: rev_induct) (auto simp: block_lines_def)
text \<open>
  C8, as stated: a block whose first line is not a timestamp would leave the ages
  untouched. The next line of the block is read as the timestamp instead, so a path
  line that reads as a number dates the paths after it: \<open>a.txt\<close> gets 123 and not 500.
\<close>

theorem C8_malformed_timestamp_counterexample:
  "finiteNumber sample_host (trim ''oops'') = None \<and>
   fileAges (bulk_loop sample_host
       (block_lines [[''oops'', ''123'', ''a.txt''], [''500'', ''a.txt'']])
       \<lparr>currentTimestamp = None, pending = [''a.txt''], fileAges = Map.empty\<rparr>) ''a.txt''
     = Some 123 \<and>
   fileAges (bulk_loop sample_host
       (block_lines [[''500'', ''a.txt'']])
       \<lparr>currentTimestamp = None, pending = [''a.txt''], fileAges = Map.empty\<rparr>) ''a.txt''
     = Some 500"
  by (simp add: block_lines_def bulk_loop.simps strip_cr_def trim_def is_space_def
        sample_host_def decimal_def)

text \<open>
  C8, amended: a block none of whose lines reads as a number (and none is blank) is
  skipped as a whole: the walk gives the same state as on the output without the block.
\<close>

theorem C8_unparsable_block_skipped:
  assumes cur: "currentTimestamp st = None"
      and bad: "list_all (\<lambda>l. strip_cr l \<noteq> [] \<and> finiteNumber h (trim (strip_cr l)) = None) bad"
  shows "bulk_loop h (block_lines (before @ bad # after)) st
       = bulk_loop h (block_lines (before @ after)) st"
proof -
  have skip: "bulk_loop h (block_lines (bad # after)) s = bulk_loop h (block_lines after) s"
    if "currentTimestamp s = None" for s
  proof -
    have "bulk_loop h (bad @ [] # block_lines after) s = bulk_loop h ([] # block_lines after) s"
      using that bad by (rule bulk_loop_skip_junk)
    also have "\<dots> = bulk_loop h (block_lines after) (s\<lparr>currentTimestamp := None\<rparr>)"
      by (simp add: bulk_loop_blank strip_cr_def)
    also have "s\<lparr>currentTimestamp := None\<rparr> = s"
      using that by simp
    finally show ?thesis by (simp add: block_lines_Cons)
  qed
  show ?thesis
  proof (cases "before = []")
    case True
    with skip [OF cur] show ?thesis by simp
  next
    case False
    then obtain pre where pre: "block_lines before = pre @ [[]]"
      using block_lines_snoc by blast
    have "bulk_loop h (pre @ [] # block_lines (bad # after)) st
        = bulk_loop h (pre @ [] # block_lines after) st"
      by (rule bulk_loop_after_blank) (rule skip)
    with pre show ?thesis by (simp add: block_lines_append)
  qed
qed

text \<open>
  A block headed by \<open>oops\<close> between two blocks with timestamps: \<open>b/c.txt\<close> gets its age
  from the later block.
\<close>

theorem C8_unparsable_block_skipped_witness:
  "fileAges (bulk_loop sample_host
       (block_lines [[''100'', ''a.txt''], [''oops'', ''b/c.txt''], [''200'', ''b/c.txt'']])
       \<lparr>currentTimestamp = None, pending = [''a.txt'', ''b/c.txt''], fileAges = Map.empty\<rparr>) ''b/c.txt''
     = Some 200"
proof -
  have cur: "currentTimestamp \<lparr>currentTimestamp = None, pending = [''a.txt'', ''b/c.txt''],
      fileAges = Map.empty\<rparr> = None"
    by simp
  have bad: "list_all (\<lambda>l. strip_cr l \<noteq> [] \<and> finiteNumber sample_host (trim (strip_cr l)) = None)
      [''oops'', ''b/c.txt'']"
    by (simp add: strip_cr_def trim_def is_space_def sample_host_def decimal_def)
  have "fileAges (bulk_loop sample_host
       (block_lines ([[''100'', ''a.txt'']] @ [[''200'', ''b/c.txt'']]))
       \<lparr>currentTimestamp = None, pending = [''a.txt'', ''b/c.txt''], fileAges = Map.empty\<rparr>) ''b/c.txt''
     = Some 200"
    by (simp add: block_lines_def bulk_loop.simps strip_cr_def trim_def is_space_def
          sample_host_def decimal_def)
  with C8_unparsable_block_skipped [OF cur bad, of "[[''100'', ''a.txt'']]" "[[''200'', ''b/c.txt'']]"]
  show ?thesis by simp
qed

subsection \<open>Paths and segments\<close>

lemma split_not_Nil [simp]: "split c s \<noteq> []"
  by (induction s) (auto split: list.splits)

lemma join_split: "join [c] (split c s) = s"
proof (induction s)
  case Nil
  then show ?case by simp
next
  case (Cons x xs)
  show ?case
  proof (cases "x = c")
    case True
    with Cons show ?thesis
      by (cases "split c xs") simp_all
  next
    case False
    obtain w ws where w: "split c xs = w # ws"
      by (cases "split c xs") simp_all
    with Cons False show ?thesis
      by (cases ws) simp_all
  qed
qed

lemma split_inject: "split c s = split c t \<Longrightarrow> s = t"
  by (metis join_split)

lemma map_of_map_set: "map_of (map_set cs k v) = (map_of cs)(k \<mapsto> v)"
  by (induction cs) (auto simp: fun_eq_iff)

subsection \<open>Where the insertion throws\<close>

lemma insert_segments_fails:
  "insert_segments t segs leaf = Inl TypeError \<longleftrightarrow> (\<exists>q. strict_prefix q segs \<and> file_at t q)"
proof (induction t segs leaf rule: insert_segments.induct)
  case (1 node leaf)
  then show ?case by simp
next
  case (2 i a part rest leaf)
  have "strict_prefix [] (part # rest) \<and> file_at (File i a) []" by simp
  then have "\<exists>q. strict_prefix q (part # rest) \<and> file_at (File i a) q" by (rule exI)
  then show ?case by simp
next
  case (3 cs a part leaf)
  have "\<not> (strict_prefix q [part] \<and> file_at (Dir cs a) q)" for q
    by (cases q) (auto simp: strict_prefix_def)
  then show ?case by simp
next
  case (4 cs a part nxt rest leaf)
  show ?case
  proof (cases "map_of cs part")
    case None
    have "\<not> file_at (Dir [] Infinity) q" for q by (cases q) simp_all
    with 4(1) [OF None] have ok: "insert_segments (Dir [] Infinity) (nxt # rest) leaf \<noteq> Inl TypeError"
      by simp
    have "\<not> (strict_prefix q (part # nxt # rest) \<and> file_at (Dir cs a) q)" for q
      using None by (cases q) auto
    with ok None show ?thesis
      by (auto split: sum.splits)
  next
    case (Some child)
    have "(\<exists>q. strict_prefix q (part # nxt # rest) \<and> file_at (Dir cs a) q)
        \<longleftrightarrow> (\<exists>q. strict_prefix q (nxt # rest) \<and> file_at child q)"
    proof
      assume "\<exists>q. strict_prefix q (part # nxt # rest) \<and> file_at (Dir cs a) q"
      then obtain q where q: "strict_prefix q (part # nxt # rest)" "file_at (Dir cs a) q" by blast
      then obtain q' where "q = part # q'" by (cases q) (auto simp: strict_prefix_def)
      with q Some show "\<exists>q. strict_prefix q (nxt # rest) \<and> file_at child q"
        by (auto simp: strict_prefix_def)
    next
      assume "\<exists>q. strict_prefix q (nxt # rest) \<and> file_at child q"
      then obtain q where "strict_prefix q (nxt # rest)" "file_at child q" by blast
      with Some have "strict_prefix (part # q) (part # nxt # rest) \<and> file_at (Dir cs a) (part # q)"
        by (simp add: strict_prefix_def)
      then show "\<exists>q. strict_prefix q (part # nxt # rest) \<and> file_at (Dir cs a) q" by blast
    qed
    with 4(2) [OF Some] Some show ?thesis
      by (auto split: sum.splits)
  qed
qed

lemma file_at_empty_dir [simp]: "\<not> file_at (Dir [] a) q"
  by (cases q) simp_all

lemma insert_segments_file_at:
  "insert_segments t segs (File i a) = Inr t' \<Longrightarrow> segs \<noteq> [] \<Longrightarrow>
   file_at t' p \<longleftrightarrow> (p = segs \<or> (file_at t p \<and> \<not> prefix segs p))"
proof (induction t segs "File i a" arbitrary: t' p rule: insert_segments.induct)
  case (1 node)
  then show ?case by simp
next
  case (2 j b part rest)
  then show ?case by simp
next
  case (3 cs b part)
  then have t': "t' = Dir (map_set cs part (File i a)) b" by simp
  show ?case
  proof (cases p)
    case Nil
    with t' show ?thesis by (simp add: map_of_map_set)
  next
    case (Cons k ks)
    with t' show ?thesis
      by (cases "k = part") (auto simp: map_of_map_set)
  qed
next
  case (4 cs b part nxt rest)
  show ?case
  proof (cases "map_of cs part")
    case None
    with 4(3) obtain child where child: "insert_segments (Dir [] Infinity) (nxt # rest) (File i a) = Inr child"
      and t': "t' = Dir (map_set cs part child) b"
      by (auto split: sum.splits)
    have ih: "file_at child q \<longleftrightarrow> q = nxt # rest" for q
      using 4(1) [OF None child, of q] by simp
    show ?thesis
    proof (cases p)
      case Nil
      with t' show ?thesis by (simp add: map_of_map_set)
    next
      case (Cons k ks)
      with t' None ih show ?thesis
        by (cases "k = part") (auto simp: map_of_map_set)
    qed
  next
    case (Some c)
    with 4(3) obtain child where child: "insert_segments c (nxt # rest) (File i a) = Inr child"
      and t': "t' = Dir (map_set cs part child) b"
      by (auto split: sum.splits)
    have ih: "file_at child q \<longleftrightarrow> (q = nxt # rest \<or> (file_at c q \<and> \<not> prefix (nxt # rest) q))" for q
      using 4(2) [OF Some child, of q] by simp
    show ?thesis
    proof (cases p)
      case Nil
      with t' show ?thesis by (simp add: map_of_map_set)
    next
      case (Cons k ks)
      with t' Some ih show ?thesis
        by (cases "k = part") (auto simp: map_of_map_set)
    qed
  qed
qed

lemma build_tree_fails:
  "build_tree ages t infos = Inl TypeError \<longleftrightarrow>
     (\<exists>s\<in>set (map segments infos). \<exists>q. file_at t q \<and> strict_prefix q s) \<or>
     prefix_before (map segments infos)"
proof (induction infos arbitrary: t)
  case Nil
  then show ?case by simp
next
  case (Cons i infos)
  let ?s = "segments i"
  let ?ss = "map segments infos"
  have s: "?s \<noteq> []" by (simp add: segments_def)
  show ?case
  proof (cases "insert_segments t ?s (file_node ages i)")
    case (Inl e)
    then have "insert_segments t ?s (file_node ages i) = Inl TypeError"
      by (cases e) simp
    then have "\<exists>q. strict_prefix q ?s \<and> file_at t q"
      by (simp add: insert_segments_fails)
    with Inl show ?thesis
      by (cases e) (auto simp: segments_def)
  next
    case (Inr t')
    then have none: "\<not> (\<exists>q. strict_prefix q ?s \<and> file_at t q)"
      using insert_segments_fails [of t ?s "file_node ages i"] by simp
    from Inr have at: "file_at t' p \<longleftrightarrow> (p = ?s \<or> (file_at t p \<and> \<not> prefix ?s p))" for p
      using insert_segments_file_at [OF _ s] by (simp add: file_node_def)
    have "build_tree ages t (i # infos) = build_tree ages t' infos"
      using Inr by (simp add: segments_def)
    also have "\<dots> = Inl TypeError \<longleftrightarrow>
        (\<exists>s\<in>set ?ss. \<exists>q. file_at t' q \<and> strict_prefix q s) \<or> prefix_before ?ss"
      by (rule Cons.IH)
    also have "(\<exists>s\<in>set ?ss. \<exists>q. file_at t' q \<and> strict_prefix q s)
        \<longleftrightarrow> (\<exists>s\<in>set ?ss. \<exists>q. file_at t q \<and> strict_prefix q s) \<or> (\<exists>q\<in>set ?ss. strict_prefix ?s q)"
      (is "?L \<longleftrightarrow> ?A \<or> ?B")
    proof
      assume ?L
      then obtain s' q where "s' \<in> set ?ss" "file_at t' q" "strict_prefix q s'" by blast
      then show "?A \<or> ?B" unfolding at by blast
    next
      assume "?A \<or> ?B"
      then show ?L
      proof
        assume ?B
        then show ?L using at by blast
      next
        assume ?A
        then obtain s' q where s': "s' \<in> set ?ss" "file_at t q" "strict_prefix q s'" by blast
        show ?L
        proof (cases "prefix ?s q")
          case True
          with s'(3) have "strict_prefix ?s s'"
            by (meson prefix_order.le_less_trans)
          with s'(1) at [of ?s] show ?thesis by blast
        next
          case False
          with s' at [of q] show ?thesis by blast
        qed
      qed
    qed
    finally show ?thesis using none by auto
  qed
qed

subsection \<open>The files of a tree\<close>

lemma leaves_Dir: "leaves (Dir cs a) = concat (map (\<lambda>(k, c). prefixed k (leaves c)) cs)"
  by (simp add: prefixed_def)

lemma leaves_Dir_Cons: "leaves (Dir ((k, c) # cs) a) = prefixed k (leaves c) @ leaves (Dir cs a)"
  by (simp add: prefixed_def)

lemma leaves_map_set:
  "mset (leaves (Dir (map_set cs k v) a)) +
     (case map_of cs k of None \<Rightarrow> {#} | Some c \<Rightarrow> mset (prefixed k (leaves c)))
   = mset (leaves (Dir cs a)) + mset (prefixed k (leaves v))"
proof (induction cs)
  case Nil
  then show ?case by (simp add: prefixed_def)
next
  case (Cons kc cs)
  obtain k' c' where kc: "kc = (k', c')" by (cases kc)
  show ?case
  proof (cases "k' = k")
    case True
    with kc show ?thesis by (simp add: leaves_Dir_Cons del: leaves.simps)
  next
    case False
    with kc Cons show ?thesis by (simp add: leaves_Dir_Cons del: leaves.simps)
  qed
qed

lemma leaves_child:
  "map_of cs k = Some c \<Longrightarrow> (q, j) \<in> set (leaves c) \<Longrightarrow> (k # q, j) \<in> set (leaves (Dir cs a))"
  by (drule map_of_SomeD) (force simp: prefixed_def)

lemma apart_Cons [simp]: "apart (k # p) (k # q) = apart p q"
  by (simp add: apart_def)

lemma insert_segments_leaves:
  assumes "segs \<noteq> []" and "\<And>q j. (q, j) \<in> set (leaves t) \<Longrightarrow> apart q segs"
  shows "\<exists>t'. insert_segments t segs (File i a) = Inr t' \<and>
              mset (leaves t') = add_mset (segs, i) (mset (leaves t))"
  using assms
proof (induction t segs "File i a" rule: insert_segments.induct)
  case (1 node)
  then show ?case by simp
next
  case (2 j b part rest)
  from 2(2) [of "[]" j] show ?case by (simp add: apart_def)
next
  case (3 cs b part)
  have none: "(case map_of cs part of None \<Rightarrow> {#} | Some c \<Rightarrow> mset (prefixed part (leaves c))) = {#}"
  proof (cases "map_of cs part")
    case None
    then show ?thesis by simp
  next
    case (Some c)
    have "leaves c = []"
    proof (rule ccontr)
      assume "leaves c \<noteq> []"
      then obtain q j where "(q, j) \<in> set (leaves c)"
        by (cases "leaves c") auto
      with Some have "(part # q, j) \<in> set (leaves (Dir cs b))" by (rule leaves_child)
      from 3(2) [OF this] show False by (simp add: apart_def)
    qed
    with Some show ?thesis by (simp add: prefixed_def)
  qed
  from leaves_map_set [of cs part "File i a" b]
  have "mset (leaves (Dir (map_set cs part (File i a)) b))
      = add_mset ([part], i) (mset (leaves (Dir cs b)))"
    unfolding none by (simp add: prefixed_def)
  then show ?case by simp
next
  case (4 cs b part nxt rest)
  show ?case
  proof (cases "map_of cs part")
    case None
    from 4(1) [OF None] obtain child
      where child: "insert_segments (Dir [] Infinity) (nxt # rest) (File i a) = Inr child"
        and l: "mset (leaves child) = {#(nxt # rest, i)#}"
      by auto
    from leaves_map_set [of cs part child b] None l
    have "mset (leaves (Dir (map_set cs part child) b))
        = add_mset (part # nxt # rest, i) (mset (leaves (Dir cs b)))"
      by (simp add: prefixed_def)
    with None child show ?thesis by simp
  next
    case (Some c)
    have "apart q (nxt # rest)" if "(q, j) \<in> set (leaves c)" for q j
      using 4(4) [OF leaves_child [OF Some that]] by simp
    with 4(2) [OF Some] obtain child
      where child: "insert_segments c (nxt # rest) (File i a) = Inr child"
        and l: "mset (leaves child) = add_mset (nxt # rest, i) (mset (leaves c))"
      by auto
    have "mset (prefixed part (leaves child))
        = add_mset (part # nxt # rest, i) (mset (prefixed part (leaves c)))"
      using l by (simp add: prefixed_def)
    with leaves_map_set [of cs part child b] Some
    have "mset (leaves (Dir (map_set cs part child) b))
        = add_mset (part # nxt # rest, i) (mset (leaves (Dir cs b)))"
      by simp
    with Some child show ?thesis by simp
  qed
qed

lemma build_tree_leaves:
  assumes "all_apart (map segments infos)"
      and "\<And>q j s. (q, j) \<in> set (leaves t) \<Longrightarrow> s \<in> set (map segments infos) \<Longrightarrow> apart q s"
  shows "\<exists>t'. build_tree ages t infos = Inr t' \<and>
              mset (leaves t') = mset (leaves t) + mset (map (\<lambda>i. (segments i, i)) infos)"
  using assms
proof (induction infos arbitrary: t)
  case Nil
  then show ?case by simp
next
  case (Cons i infos)
  have s: "segments i \<noteq> []" by (simp add: segments_def)
  have ap: "apart q (segments i)" if "(q, j) \<in> set (leaves t)" for q j
    using Cons.prems(2) that by simp
  have "\<exists>t'. insert_segments t (segments i) (File i a) = Inr t' \<and>
              mset (leaves t') = add_mset (segments i, i) (mset (leaves t))" for a
    by (rule insert_segments_leaves [OF s]) (rule ap)
  then obtain t' where t': "insert_segments t (segments i) (file_node ages i) = Inr t'"
    and l: "mset (leaves t') = add_mset (segments i, i) (mset (leaves t))"
    unfolding file_node_def by blast
  have "apart q s" if "(q, j) \<in> set (leaves t')" "s \<in> set (map segments infos)" for q j s
  proof -
    from that(1) have "(q, j) \<in># mset (leaves t')" by simp
    then have "(q, j) = (segments i, i) \<or> (q, j) \<in> set (leaves t)"
      unfolding l by simp
    then show ?thesis
    proof
      assume "(q, j) = (segments i, i)"
      with Cons.prems(1) that(2) show ?thesis by auto
    next
      assume "(q, j) \<in> set (leaves t)"
      with Cons.prems(2) that(2) show ?thesis by simp
    qed
  qed
  with Cons.IH [of t'] Cons.prems(1) obtain t''
    where "build_tree ages t' infos = Inr t''"
      and "mset (leaves t'') = mset (leaves t') + mset (map (\<lambda>i. (segments i, i)) infos)"
    by auto
  with t' l show ?case by (simp add: segments_def)
qed

lemma leaves_computeDirectoryAge [simp]: "leaves (computeDirectoryAge t) = leaves t"
proof (induction t rule: computeDirectoryAge.induct)
  case (1 i a)
  then show ?case by simp
next
  case (2 cs a)
  then have "\<forall>x\<in>set cs. leaves (computeDirectoryAge (snd x)) = leaves (snd x)"
    by auto
  then show ?case
    by (simp add: Let_def case_prod_unfold comp_def cong: map_cong)
qed

lemma infos_of_File [simp]: "infos_of (File i a) = {#i#}"
  by (simp add: infos_of_def)

lemma infos_of_Dir: "infos_of (Dir cs a) = (\<Sum>kc\<leftarrow>cs. infos_of (snd kc))"
  by (induction cs) (auto simp: infos_of_def case_prod_unfold image_mset.compositionality comp_def)

lemma computeDirectoryAge_Dir: "\<exists>cs' a'. computeDirectoryAge (Dir cs a) = Dir cs' a'"
  by (simp add: Let_def)

lemma sum_list_array_sort:
  "(\<Sum>x\<leftarrow>array_sort cmp xs. f x) = (\<Sum>x\<leftarrow>xs. (f x :: 'b :: comm_monoid_add))"
proof -
  have "sum_mset (mset (map f (array_sort cmp xs))) = sum_mset (mset (map f xs))"
    by simp
  then show ?thesis
    by (simp only: sum_mset_sum_list)
qed

lemma collectFilesByAge_mset_aux:
  "t = Dir cs a \<Longrightarrow> mset (collectFilesByAge h t parentPath out) = mset out + infos_of t"
proof (induction t arbitrary: cs a parentPath out rule: computeDirectoryAge.induct)
  case (1 i b)
  then show ?case by simp
next
  case (2 cs0 a0)
  let ?step = "\<lambda>out (segment, childNode).
              (let currentPath = (if parentPath \<noteq> [] then parentPath @ ''/'' @ segment else segment) in
               case childNode of
                 File i a \<Rightarrow> out @ [i]
               | Dir cs' a' \<Rightarrow> collectFilesByAge h childNode currentPath out)"
  have fold: "mset (foldl ?step out ys) = mset out + (\<Sum>kc\<leftarrow>ys. infos_of (snd kc))"
    if "set ys \<subseteq> set cs0" for ys out
    using that
  proof (induction ys arbitrary: out)
    case Nil
    then show ?case by simp
  next
    case (Cons kc ys)
    obtain k c where kc: "kc = (k, c)" by (cases kc)
    with Cons.prems have mem: "(k, c) \<in> set cs0" by simp
    have "mset (?step out kc) = mset out + infos_of c"
    proof (cases c)
      case (File i b)
      with kc show ?thesis by simp
    next
      case (Dir cs' b)
      from "2.IH" [OF mem refl Dir]
      have "mset (collectFilesByAge h c p out) = mset out + infos_of c" for p .
      with kc Dir show ?thesis by (simp add: Let_def)
    qed
    with Cons.IH [of "?step out kc"] Cons.prems kc show ?case by simp
  qed
  have "(\<Sum>kc\<leftarrow>array_sort (entry_cmp h parentPath) cs0. infos_of (snd kc))
      = (\<Sum>kc\<leftarrow>cs0. infos_of (snd kc))"
    by (rule sum_list_array_sort)
  with fold [of "array_sort (entry_cmp h parentPath) cs0" out] show ?case
    by (simp add: infos_of_Dir)
qed

lemma collectFilesByAge_mset:
  "mset (collectFilesByAge h (Dir cs a) parentPath out) = mset out + infos_of (Dir cs a)"
  by (rule collectFilesByAge_mset_aux) (rule refl)

lemma insert_segments_Dir:
  "insert_segments (Dir cs a) segs leaf = Inr t' \<Longrightarrow> \<exists>cs'. t' = Dir cs' a"
proof (cases segs)
  case Nil
  assume "insert_segments (Dir cs a) segs leaf = Inr t'"
  with Nil show ?thesis by auto
next
  case (Cons part rest)
  assume "insert_segments (Dir cs a) segs leaf = Inr t'"
  with Cons show ?thesis
    by (cases rest) (auto split: option.splits sum.splits)
qed

lemma build_tree_Dir:
  "build_tree ages (Dir cs a) infos = Inr t' \<Longrightarrow> \<exists>cs'. t' = Dir cs' a"
proof (induction infos arbitrary: cs)
  case Nil
  then show ?case by auto
next
  case (Cons i infos)
  then obtain t where t: "insert_segments (Dir cs a) (split CHR ''/'' (rel i)) (file_node ages i) = Inr t"
    and rest: "build_tree ages t infos = Inr t'"
    by (auto split: sum.splits)
  from insert_segments_Dir [OF t] obtain cs' where "t = Dir cs' a" by blast
  with rest Cons.IH show ?case by blast
qed

lemma orderInfosByOldest_mset:
  assumes "all_apart (map segments infos)"
  shows "\<exists>ordered. orderInfosByOldest h infos ages = Inr ordered \<and> mset ordered = mset infos"
proof -
  from build_tree_leaves [OF assms, of "Dir [] Infinity" ages]
  obtain root where root: "build_tree ages (Dir [] Infinity) infos = Inr root"
    and l: "mset (leaves root) = mset (map (\<lambda>i. (segments i, i)) infos)"
    by auto
  from build_tree_Dir [OF root] obtain cs where cs: "root = Dir cs Infinity" by blast
  obtain cs' a' where aged: "computeDirectoryAge root = Dir cs' a'"
    unfolding cs using computeDirectoryAge_Dir by blast
  have "infos_of (computeDirectoryAge root) = image_mset snd (mset (map (\<lambda>i. (segments i, i)) infos))"
    unfolding infos_of_def leaves_computeDirectoryAge l ..
  also have "\<dots> = mset infos"
    by (simp add: image_mset.compositionality comp_def flip: mset_map)
  finally have "mset (collectFilesByAge h (computeDirectoryAge root) [] []) = mset infos"
    unfolding aged collectFilesByAge_mset by simp
  with root show ?thesis
    by (simp add: orderInfosByOldest_def)
qed

lemma all_apart_distinct_prefix_free:
  assumes "distinct (map rel infos)"
      and "\<forall>a\<in>set infos. \<forall>b\<in>set infos. \<not> strict_prefix (segments a) (segments b)"
  shows "all_apart (map segments infos)"
  using assms
proof (induction infos)
  case Nil
  then show ?case by simp
next
  case (Cons i infos)
  have "apart (segments i) (segments j)" if "j \<in> set infos" for j
  proof -
    from Cons.prems(1) that have "rel i \<noteq> rel j" by auto
    then have "segments i \<noteq> segments j"
      unfolding segments_def using split_inject by blast
    moreover from Cons.prems(2) that
    have "\<not> strict_prefix (segments i) (segments j)" "\<not> strict_prefix (segments j) (segments i)"
      by simp_all
    ultimately show ?thesis
      by (auto simp: apart_def strict_prefix_def)
  qed
  with Cons show ?case by auto
qed

subsection \<open>Prefix conflicts\<close>

lemma orderInfosByOldest_fails:
  "orderInfosByOldest h infos ages = Inl TypeError \<longleftrightarrow> prefix_before (map segments infos)"
proof -
  have "build_tree ages (Dir [] Infinity) infos = Inl TypeError \<longleftrightarrow> prefix_before (map segments infos)"
    by (simp add: build_tree_fails)
  then show ?thesis
    by (cases "build_tree ages (Dir [] Infinity) infos") (simp_all add: orderInfosByOldest_def)
qed

lemma prefix_before_iff:
  "prefix_before ss \<longleftrightarrow> (\<exists>i j. i < j \<and> j < length ss \<and> strict_prefix (ss ! i) (ss ! j))"
proof (induction ss)
  case Nil
  then show ?case by simp
next
  case (Cons s ss)
  show ?case
  proof
    assume "prefix_before (s # ss)"
    then consider (head) q where "q \<in> set ss" "strict_prefix s q" | (tail) "prefix_before ss"
      by auto
    then show "\<exists>i j. i < j \<and> j < length (s # ss) \<and> strict_prefix ((s # ss) ! i) ((s # ss) ! j)"
    proof cases
      case head
      then obtain k where "k < length ss" "ss ! k = q" by (auto simp: in_set_conv_nth)
      with head have "0 < Suc k \<and> Suc k < length (s # ss) \<and> strict_prefix ((s # ss) ! 0) ((s # ss) ! Suc k)"
        by simp
      then show ?thesis by blast
    next
      case tail
      with Cons obtain i j where "i < j" "j < length ss" "strict_prefix (ss ! i) (ss ! j)" by blast
      then have "Suc i < Suc j \<and> Suc j < length (s # ss) \<and> strict_prefix ((s # ss) ! Suc i) ((s # ss) ! Suc j)"
        by simp
      then show ?thesis by blast
    qed
  next
    assume "\<exists>i j. i < j \<and> j < length (s # ss) \<and> strict_prefix ((s # ss) ! i) ((s # ss) ! j)"
    then obtain i j where ij: "i < j" "j < length (s # ss)" "strict_prefix ((s # ss) ! i) ((s # ss) ! j)"
      by blast
    then obtain j' where j': "j = Suc j'" by (cases j) auto
    show "prefix_before (s # ss)"
    proof (cases i)
      case 0
      with ij j' have "ss ! j' \<in> set ss" "strict_prefix s (ss ! j')" by auto
      then show ?thesis by auto
    next
      case (Suc i')
      with ij j' have "i' < j' \<and> j' < length ss \<and> strict_prefix (ss ! i') (ss ! j')" by auto
      with Cons show ?thesis by auto
    qed
  qed
qed

lemma prefix_free_not_before:
  assumes "\<forall>a\<in>set infos. \<forall>b\<in>set infos. \<not> strict_prefix (segments a) (segments b)"
  shows "\<not> prefix_before (map segments infos)"
proof
  assume "prefix_before (map segments infos)"
  then obtain i j where "i < j" "j < length infos"
      "strict_prefix (segments (infos ! i)) (segments (infos ! j))"
    unfolding prefix_before_iff by auto
  with assms show False
    by (meson nth_mem order.strict_trans)
qed

text \<open>
  C10, amended: \<open>orderInfosByOldest\<close> throws the \<open>TypeError\<close> exactly when some path of the
  list is a proper prefix, by segments, of a path that comes later in the list; on a
  list in which no path is a proper prefix of another it returns an order.
\<close>

theorem C10_type_error_iff:
  "(orderInfosByOldest h infos ages = Inl TypeError \<longleftrightarrow>
      (\<exists>i j. i < j \<and> j < length infos \<and> strict_prefix (segments (infos ! i)) (segments (infos ! j)))) \<and>
   ((\<forall>a\<in>set infos. \<forall>b\<in>set infos. \<not> strict_prefix (segments a) (segments b)) \<longrightarrow>
      (\<exists>ordered. orderInfosByOldest h infos ages = Inr ordered))"
proof (intro conjI impI)
  have "(\<exists>i j. i < j \<and> j < length (map segments infos) \<and>
            strict_prefix (map segments infos ! i) (map segments infos ! j))
      \<longleftrightarrow> (\<exists>i j. i < j \<and> j < length infos \<and> strict_prefix (segments (infos ! i)) (segments (infos ! j)))"
    by (intro ex_cong1 conj_cong refl) auto
  then show "orderInfosByOldest h infos ages = Inl TypeError \<longleftrightarrow>
      (\<exists>i j. i < j \<and> j < length infos \<and> strict_prefix (segments (infos ! i)) (segments (infos ! j)))"
    by (simp only: orderInfosByOldest_fails prefix_before_iff)
next
  assume "\<forall>a\<in>set infos. \<forall>b\<in>set infos. \<not> strict_prefix (segments a) (segments b)"
  then have "orderInfosByOldest h infos ages \<noteq> Inl TypeError"
    by (simp add: orderInfosByOldest_fails prefix_free_not_before)
  then show "\<exists>ordered. orderInfosByOldest h infos ages = Inr ordered"
    by (cases "orderInfosByOldest h infos ages") (auto intro: error.exhaust)
qed

text \<open>
  C10, as stated, at the list \<open>a/b\<close>, \<open>a\<close>: the shorter path is a proper prefix of the
  longer one, which comes first. Nothing is thrown: the file node of \<open>a\<close> replaces the
  directory \<open>a\<close>, and \<open>a/b\<close> is lost from the order.
\<close>

theorem C10_longer_path_first_counterexample:
  "strict_prefix (segments (included_file ''a'')) (segments (included_file ''a/b'')) \<and>
   orderInfosByOldest sample_host [included_file ''a/b'', included_file ''a''] Map.empty
     = Inr [included_file ''a'']"
  by (simp add: segments_def included_file_def orderInfosByOldest_def file_node_def
        array_sort_def entry_cmp_def)

text \<open>
  The list \<open>a\<close>, \<open>a/b\<close> throws, and a list without a prefix conflict gives an order.
\<close>

theorem C10_type_error_iff_witness:
  "orderInfosByOldest sample_host [included_file ''a'', included_file ''a/b''] Map.empty = Inl TypeError \<and>
   (\<exists>ordered. orderInfosByOldest sample_host [included_file ''a.txt'', included_file ''b/c.txt''] Map.empty
      = Inr ordered)"
proof -
  have "(0::nat) < 1 \<and> 1 < length [included_file ''a'', included_file ''a/b''] \<and>
      strict_prefix (segments ([included_file ''a'', included_file ''a/b''] ! 0))
        (segments ([included_file ''a'', included_file ''a/b''] ! 1))"
    by (simp add: segments_def included_file_def)
  then have "\<exists>i j. i < j \<and> j < length [included_file ''a'', included_file ''a/b''] \<and>
      strict_prefix (segments ([included_file ''a'', included_file ''a/b''] ! i))
        (segments ([included_file ''a'', included_file ''a/b''] ! j))"
    by blast
  with C10_type_error_iff [of sample_host "[included_file ''a'', included_file ''a/b'']" Map.empty]
  have throws: "orderInfosByOldest sample_host [included_file ''a'', included_file ''a/b''] Map.empty
      = Inl TypeError"
    by blast
  have "\<forall>a\<in>set [included_file ''a.txt'', included_file ''b/c.txt''].
          \<forall>b\<in>set [included_file ''a.txt'', included_file ''b/c.txt''].
            \<not> strict_prefix (segments a) (segments b)"
    by (simp add: segments_def included_file_def)
  with C10_type_error_iff [of sample_host "[included_file ''a.txt'', included_file ''b/c.txt'']" Map.empty]
  have "\<exists>ordered. orderInfosByOldest sample_host [included_file ''a.txt'', included_file ''b/c.txt''] Map.empty
      = Inr ordered"
    by blast
  with throws show ?thesis by blast
qed

subsection \<open>The final order is a permutation\<close>

lemma distinct_map_relD: "distinct (map rel xs) \<Longrightarrow> distinct xs"
  by (simp add: distinct_map)

text \<open>
  C2: when the paths of the included files are pairwise distinct and none is a proper
  prefix, by segments, of another, the final order of \<open>buildHtml\<close> is returned (nothing is
  thrown) and is a permutation of the included files without repetition, in either
  sort mode and whatever git answers; the same holds for the age order under any age
  record, and for the filename order, each followed by the relocation of the readme.
\<close>

theorem C2_final_order_permutation:
  assumes "distinct (map rel (filter (\<lambda>i. included (decision i)) infos))"
      and "\<forall>a\<in>set (filter (\<lambda>i. included (decision i)) infos).
             \<forall>b\<in>set (filter (\<lambda>i. included (decision i)) infos).
               \<not> strict_prefix (segments a) (segments b)"
  shows "(\<exists>final queries. buildHtml_order h g infos sortMode = Inr (final, queries) \<and>
            mset final = mset (filter (\<lambda>i. included (decision i)) infos) \<and> distinct final) \<and>
         (\<exists>ordered. orderInfosByOldest h (filter (\<lambda>i. included (decision i)) infos) ages = Inr ordered \<and>
            mset (relocate_readme ordered) = mset (filter (\<lambda>i. included (decision i)) infos)) \<and>
         mset (relocate_readme (filename_sort h (filter (\<lambda>i. included (decision i)) infos)))
           = mset (filter (\<lambda>i. included (decision i)) infos)"
proof -
  let ?rendered = "filter (\<lambda>i. included (decision i)) infos"
  from assms have apart: "all_apart (map segments ?rendered)"
    by (rule all_apart_distinct_prefix_free)
  have age: "\<exists>ordered. orderInfosByOldest h ?rendered ages = Inr ordered \<and>
      mset (relocate_readme ordered) = mset ?rendered" for ages
    using orderInfosByOldest_mset [OF apart, of h ages] by auto
  have name: "mset (relocate_readme (filename_sort h ?rendered)) = mset ?rendered"
    by (simp add: filename_sort_def)
  have dist: "distinct final" if "mset final = mset ?rendered" for final
    using that assms(1) distinct_map_relD mset_eq_imp_distinct_iff by blast
  have "\<exists>final queries. buildHtml_order h g infos sortMode = Inr (final, queries) \<and>
      mset final = mset ?rendered"
  proof (cases "sortMode = ''age'' \<and> ?rendered \<noteq> []")
    case True
    obtain fileAgeMap queries where gather:
      "gatherOldestCommitTimes h g (map rel ?rendered) = (fileAgeMap, queries)"
      by (cases "gatherOldestCommitTimes h g (map rel ?rendered)")
    from age [of fileAgeMap] obtain ordered
      where "orderInfosByOldest h ?rendered fileAgeMap = Inr ordered"
        and "mset (relocate_readme ordered) = mset ?rendered"
      by blast
    with True gather show ?thesis
      by (simp add: buildHtml_order_def Let_def)
  next
    case False
    then have "buildHtml_order h g infos sortMode
        = Inr (relocate_readme (filename_sort h ?rendered), [])"
      by (auto simp: buildHtml_order_def Let_def filename_sort_def array_sort_def)
    with name show ?thesis by simp
  qed
  with dist age [of ages] name show ?thesis by blast
qed

text \<open>
  Four included files and an ignored one in age mode, on the example host and git: the
  final order holds the four included files, the readme first.
\<close>

theorem C2_final_order_permutation_witness:
  "buildHtml_order sample_host sample_git
     [included_file ''a.txt'', included_file ''b/c.txt'', excluded_file ''.git/config'',
      included_file ''b/d.txt'', included_file ''README.md'']
     ''age''
   = Inr ([included_file ''README.md'', included_file ''a.txt'', included_file ''b/c.txt'',
           included_file ''b/d.txt''],
          [LogAll, LogFollow ''b/d.txt'', LogFollow ''README.md''])"
proof -
  let ?infos = "[included_file ''a.txt'', included_file ''b/c.txt'', excluded_file ''.git/config'',
      included_file ''b/d.txt'', included_file ''README.md'']"
  let ?rendered = "[included_file ''a.txt'', included_file ''b/c.txt'',
      included_file ''b/d.txt'', included_file ''README.md'']"
  have rendered: "filter (\<lambda>i. included (decision i)) ?infos = ?rendered"
    by (simp add: included_file_def excluded_file_def)
  have h1: "distinct (map rel (filter (\<lambda>i. included (decision i)) ?infos))"
    unfolding rendered by (simp add: included_file_def)
  have h2: "\<forall>a\<in>set (filter (\<lambda>i. included (decision i)) ?infos).
             \<forall>b\<in>set (filter (\<lambda>i. included (decision i)) ?infos).
               \<not> strict_prefix (segments a) (segments b)"
    unfolding rendered by (simp add: included_file_def segments_def)
  have uniq: "uniq [''a.txt'', ''b/c.txt'', ''b/d.txt'', ''README.md'']
      = [''a.txt'', ''b/c.txt'', ''b/d.txt'', ''README.md'']"
    by (simp add: uniq_def)
  have lines: "split (CHR 0x0A) ''100\<newline>a.txt\<newline>\<newline>200\<newline>a.txt\<newline>b/c.txt\<newline>''
      = [''100'', ''a.txt'', [], ''200'', ''a.txt'', ''b/c.txt'', []]"
    by simp
  have bulk: "bulk_phase sample_host sample_git [''a.txt'', ''b/c.txt'', ''b/d.txt'', ''README.md'']
      = \<lparr>currentTimestamp = None, pending = [''b/d.txt'', ''README.md''],
         fileAges = [''a.txt'' \<mapsto> 100, ''b/c.txt'' \<mapsto> 200]\<rparr>"
    by (simp add: bulk_phase_def sample_git_def lines bulk_loop.simps Let_def strip_cr_def
          trim_def is_space_def sample_host_def decimal_def)
  have parts: "whitespace_parts ''400\<newline>300\<newline>'' = [''400'', ''300'']"
    by (simp add: whitespace_parts_def trim_def is_space_def)
  have fb1: "fallback_step sample_host sample_git ages ''b/d.txt'' = ages(''b/d.txt'' \<mapsto> 300)" for ages
    by (simp add: fallback_step_def sample_git_def parts Let_def sample_host_def decimal_def)
  have fb2: "fallback_step sample_host sample_git ages ''README.md'' = ages" for ages
    by (simp add: fallback_step_def sample_git_def)
  have gather: "gatherOldestCommitTimes sample_host sample_git (map rel ?rendered)
      = ([''a.txt'' \<mapsto> 100, ''b/c.txt'' \<mapsto> 200, ''b/d.txt'' \<mapsto> 300],
         [LogAll, LogFollow ''b/d.txt'', LogFollow ''README.md''])"
    by (simp add: gatherOldestCommitTimes_def included_file_def uniq bulk Let_def fb1 fb2)
  have order: "orderInfosByOldest sample_host ?rendered
        [''a.txt'' \<mapsto> 100, ''b/c.txt'' \<mapsto> 200, ''b/d.txt'' \<mapsto> 300]
      = Inr [included_file ''a.txt'', included_file ''b/c.txt'', included_file ''b/d.txt'',
             included_file ''README.md'']"
    by (simp add: orderInfosByOldest_def included_file_def file_node_def array_sort_def entry_cmp_def)
  have lower: "toLowerCase ''a.txt'' = ''a.txt''" "toLowerCase ''README.md'' = ''readme.md''"
    by (simp_all add: toLowerCase.simps toLowerCase_char_def)
  have readme: "relocate_readme [included_file ''a.txt'', included_file ''b/c.txt'',
        included_file ''b/d.txt'', included_file ''README.md'']
      = [included_file ''README.md'', included_file ''a.txt'', included_file ''b/c.txt'',
         included_file ''b/d.txt'']"
    by (simp add: relocate_readme_def included_file_def lower startsWith_def)
  have eval: "buildHtml_order sample_host sample_git ?infos ''age''
      = Inr ([included_file ''README.md'', included_file ''a.txt'', included_file ''b/c.txt'',
              included_file ''b/d.txt''],
             [LogAll, LogFollow ''b/d.txt'', LogFollow ''README.md''])"
    unfolding buildHtml_order_def rendered Let_def gather prod.case order by (simp add: readme)
  from C2_final_order_permutation [OF h1 h2, of sample_host sample_git "''age''" Map.empty] eval
  show ?thesis by blast
qed

subsection \<open>The age record after the fallback\<close>

lemma distinct_uniq [simp]: "distinct (uniq xs)"
  by (simp add: uniq_def)

lemma gather_fst:
  "fst (gatherOldestCommitTimes h g relPaths) p =
     (if p \<in> set (pending (bulk_phase h g (uniq relPaths))) then fallback_age h g p
      else fileAges (bulk_phase h g (uniq relPaths)) p)"
proof (cases "uniq relPaths = []")
  case True
  then show ?thesis
    by (cases "log_all g") (simp_all add: gatherOldestCommitTimes_def bulk_phase_failed bulk_phase_ok)
next
  case False
  let ?st = "bulk_phase h g (uniq relPaths)"
  from False have "fst (gatherOldestCommitTimes h g relPaths) p
      = foldl (fallback_step h g) (fileAges ?st) (pending ?st) p"
    by (simp add: gatherOldestCommitTimes_def Let_def)
  also have "\<dots> = (if p \<in> set (pending ?st)
                     then (case fallback_age h g p of Some t \<Rightarrow> Some t | None \<Rightarrow> fileAges ?st p)
                     else fileAges ?st p)"
    by (rule foldl_fallback_step)
  also have "\<dots> = (if p \<in> set (pending ?st) then fallback_age h g p else fileAges ?st p)"
    by (cases "fallback_age h g p") (simp_all add: bulk_phase_invariant)
  finally show ?thesis .
qed

lemma entry_cmp_unknown_last:
  assumes "node_age n1 = Known t" and "node_age n2 = Infinity"
  shows "entry_cmp h parentPath (k1, n1) (k2, n2) < 0" and "entry_cmp h parentPath (k2, n2) (k1, n1) > 0"
  using assms by (simp_all add: entry_cmp_def)

text \<open>
  C7: after the bulk query, one query is sent for each path still pending, in order and
  without repetition; a pending path gets the number read from the last part of its
  output that is separated by white space, and stays without an age when the query
  fails, prints nothing or prints no finite number; the other paths keep what the bulk
  phase recorded. A path without an age becomes a file node of age infinity, which the
  comparator of the sort puts after every known age, and whether the ordering throws
  does not depend on the ages.
\<close>

theorem C7_fallback_phase:
  "(uniq relPaths \<noteq> [] \<longrightarrow>
      snd (gatherOldestCommitTimes h g relPaths)
        = LogAll # map LogFollow (pending (bulk_phase h g (uniq relPaths)))) \<and>
   distinct (pending (bulk_phase h g (uniq relPaths))) \<and>
   (\<forall>p\<in>set (pending (bulk_phase h g (uniq relPaths))).
      fst (gatherOldestCommitTimes h g relPaths) p = fallback_age h g p) \<and>
   (\<forall>p. p \<notin> set (pending (bulk_phase h g (uniq relPaths))) \<longrightarrow>
      fst (gatherOldestCommitTimes h g relPaths) p = fileAges (bulk_phase h g (uniq relPaths)) p) \<and>
   (ages (rel i) = None \<longrightarrow> file_node ages i = File i Infinity) \<and>
   (node_age n1 = Known t \<and> node_age n2 = Infinity \<longrightarrow>
      entry_cmp h parentPath (k1, n1) (k2, n2) < 0 \<and> entry_cmp h parentPath (k2, n2) (k1, n1) > 0) \<and>
   (orderInfosByOldest h infos ages = Inl TypeError
      \<longleftrightarrow> orderInfosByOldest h infos ages' = Inl TypeError)"
proof (intro conjI impI ballI allI)
  assume "uniq relPaths \<noteq> []"
  then show "snd (gatherOldestCommitTimes h g relPaths)
        = LogAll # map LogFollow (pending (bulk_phase h g (uniq relPaths)))"
    by (simp add: gatherOldestCommitTimes_def Let_def)
next
  show "distinct (pending (bulk_phase h g (uniq relPaths)))"
    by (simp add: bulk_phase_pending_distinct)
next
  fix p assume "p \<in> set (pending (bulk_phase h g (uniq relPaths)))"
  then show "fst (gatherOldestCommitTimes h g relPaths) p = fallback_age h g p"
    by (simp add: gather_fst)
next
  fix p assume "p \<notin> set (pending (bulk_phase h g (uniq relPaths)))"
  then show "fst (gatherOldestCommitTimes h g relPaths) p = fileAges (bulk_phase h g (uniq relPaths)) p"
    by (simp add: gather_fst)
next
  assume "ages (rel i) = None"
  then show "file_node ages i = File i Infinity"
    by (simp add: file_node_def)
next
  assume "node_age n1 = Known t \<and> node_age n2 = Infinity"
  then show "entry_cmp h parentPath (k1, n1) (k2, n2) < 0" "entry_cmp h parentPath (k2, n2) (k1, n1) > 0"
    by (simp_all add: entry_cmp_unknown_last)
next
  show "orderInfosByOldest h infos ages = Inl TypeError
      \<longleftrightarrow> orderInfosByOldest h infos ages' = Inl TypeError"
    by (simp only: orderInfosByOldest_fails)
qed

text \<open>
  On the example git two paths are pending after the bulk phase: \<open>b/d.txt\<close> gets 300, the
  last number its query prints, and \<open>README.md\<close>, whose query fails, has no age and
  becomes a file node of age infinity.
\<close>

theorem C7_fallback_phase_witness:
  "snd (gatherOldestCommitTimes sample_host sample_git [''a.txt'', ''b/c.txt'', ''b/d.txt'', ''README.md''])
     = [LogAll, LogFollow ''b/d.txt'', LogFollow ''README.md''] \<and>
   fst (gatherOldestCommitTimes sample_host sample_git [''a.txt'', ''b/c.txt'', ''b/d.txt'', ''README.md''])
     ''b/d.txt'' = Some 300 \<and>
   fst (gatherOldestCommitTimes sample_host sample_git [''a.txt'', ''b/c.txt'', ''b/d.txt'', ''README.md''])
     ''README.md'' = None \<and>
   file_node
     (fst (gatherOldestCommitTimes sample_host sample_git [''a.txt'', ''b/c.txt'', ''b/d.txt'', ''README.md'']))
     (included_file ''README.md'')
     = File (included_file ''README.md'') Infinity"
proof -
  let ?paths = "[''a.txt'', ''b/c.txt'', ''b/d.txt'', ''README.md'']"
  have uniq: "uniq ?paths = ?paths"
    by (simp add: uniq_def)
  have lines: "split (CHR 0x0A) ''100\<newline>a.txt\<newline>\<newline>200\<newline>a.txt\<newline>b/c.txt\<newline>''
      = [''100'', ''a.txt'', [], ''200'', ''a.txt'', ''b/c.txt'', []]"
    by simp
  have bulk: "pending (bulk_phase sample_host sample_git ?paths) = [''b/d.txt'', ''README.md'']"
    by (simp add: bulk_phase_def sample_git_def lines bulk_loop.simps Let_def strip_cr_def
          trim_def is_space_def sample_host_def decimal_def)
  have parts: "whitespace_parts ''400\<newline>300\<newline>'' = [''400'', ''300'']"
    by (simp add: whitespace_parts_def trim_def is_space_def)
  have fb1: "fallback_age sample_host sample_git ''b/d.txt'' = Some 300"
    by (simp add: fallback_age_def sample_git_def parts sample_host_def decimal_def)
  have fb2: "fallback_age sample_host sample_git ''README.md'' = None"
    by (simp add: fallback_age_def sample_git_def)
  note inst = C7_fallback_phase [of ?paths sample_host sample_git
      "fst (gatherOldestCommitTimes sample_host sample_git ?paths)" "included_file ''README.md''"
      "File (included_file ''a.txt'') (Known 100)" 100 "File (included_file ''README.md'') Infinity"
      "[]" "''a.txt''" "''README.md''" "[included_file ''a.txt'']" Map.empty, unfolded uniq bulk]
  from inst have q: "snd (gatherOldestCommitTimes sample_host sample_git ?paths)
      = [LogAll, LogFollow ''b/d.txt'', LogFollow ''README.md'']"
    by simp
  from inst have a1: "fst (gatherOldestCommitTimes sample_host sample_git ?paths) ''b/d.txt'' = Some 300"
    by (simp add: fb1)
  from inst have a2: "fst (gatherOldestCommitTimes sample_host sample_git ?paths) ''README.md'' = None"
    by (simp add: fb2)
  from inst a2 have "file_node (fst (gatherOldestCommitTimes sample_host sample_git ?paths))
      (included_file ''README.md'') = File (included_file ''README.md'') Infinity"
    by (simp add: included_file_def)
  with q a1 a2 show ?thesis by blast
qed

end
